theory Spec2Isabelle
  imports Main
begin

section \<open>The Tower of Hanoi notebook\<close>

text \<open>
  The notebook \<^verbatim>\<open>lru_cache.ipynb\<close> defines three functions: \<^verbatim>\<open>hanoi\<close>, which lists the
  moves, \<^verbatim>\<open>hanoi_count\<close>, which counts them, and a second \<^verbatim>\<open>hanoi_count\<close> that is the
  same body under the decorator \<^verbatim>\<open>@lru_cache()\<close>. Python integers are unbounded, so the
  number of disks is an \<^typ>\<open>int\<close>; the poles are arbitrary hashable values, a type
  variable, except in \<^verbatim>\<open>hanoi\<close>, which formats them into text and is called with strings.
  The interpreter's recursion limit is a bound of the host, not of the program, and is
  not modelled: the call stack is unbounded here.
\<close>

subsection \<open>Decimal text of an integer, as an f-string renders it\<close>

definition digit_char :: "nat \<Rightarrow> char" where
  "digit_char d = char_of (of_char (CHR ''0'') + d)"

fun str_nat :: "nat \<Rightarrow> string" where
  "str_nat n = (if n < 10 then [digit_char n] else str_nat (n div 10) @ [digit_char (n mod 10)])"

definition str_int :: "int \<Rightarrow> string" where
  "str_int i = (if i < 0 then CHR ''-'' # str_nat (nat (- i)) else str_nat (nat i))"

subsection \<open>The step-listing function\<close>

text \<open>
  \<^verbatim>\<open>
  def hanoi(n_disks, start_pole, free_pole, end_pole):
      steps = list()
      if n_disks > 0:
          steps.extend(hanoi(n_disks - 1, start_pole, end_pole, free_pole))
          steps.append(f"Move disk {n_disks} from rod {start_pole} to rod {end_pole}")
          steps.extend(hanoi(n_disks - 1, free_pole, start_pole, end_pole))
      return steps
  \<close>
\<close>

function hanoi :: "int \<Rightarrow> string \<Rightarrow> string \<Rightarrow> string \<Rightarrow> string list" where
  "hanoi n_disks start_pole free_pole end_pole =
     (let steps = [] in
      if n_disks > 0 then
        let steps = steps @ hanoi (n_disks - 1) start_pole end_pole free_pole;
            steps = steps @ [''Move disk '' @ str_int n_disks @ '' from rod '' @ start_pole
                               @ '' to rod '' @ end_pole];
            steps = steps @ hanoi (n_disks - 1) free_pole start_pole end_pole
        in steps
      else steps)"
  by pat_completeness auto
termination
  by (relation "measure (\<lambda>(n, a, b, c). nat n)") auto

subsection \<open>The step-counting function\<close>

text \<open>
  \<^verbatim>\<open>
  def hanoi_count(n_disks, start_pole, free_pole, end_pole):
      steps = 0
      if n_disks > 0:
          steps += hanoi_count(n_disks - 1, start_pole, end_pole, free_pole)
          steps += 1
          steps += hanoi_count(n_disks - 1, free_pole, start_pole, end_pole)
      return steps
  \<close>
\<close>

function hanoi_count :: "int \<Rightarrow> 'p \<Rightarrow> 'p \<Rightarrow> 'p \<Rightarrow> int" where
  "hanoi_count n_disks start_pole free_pole end_pole =
     (let steps = 0 in
      if n_disks > 0 then
        let steps = steps + hanoi_count (n_disks - 1) start_pole end_pole free_pole;
            steps = steps + 1;
            steps = steps + hanoi_count (n_disks - 1) free_pole start_pole end_pole
        in steps
      else steps)"
  by pat_completeness auto
termination
  by (relation "measure (\<lambda>(n, a, b, c). nat n)") auto

text \<open>
  The number of activations of each function that one call starts, the call itself
  included: one for the activation, plus those of the two recursive calls when the
  guard \<^verbatim>\<open>n_disks > 0\<close> holds.
\<close>

function hanoi_calls :: "int \<Rightarrow> string \<Rightarrow> string \<Rightarrow> string \<Rightarrow> nat" where
  "hanoi_calls n_disks start_pole free_pole end_pole =
     (if n_disks > 0 then
        1 + hanoi_calls (n_disks - 1) start_pole end_pole free_pole
          + hanoi_calls (n_disks - 1) free_pole start_pole end_pole
      else 1)"
  by pat_completeness auto
termination
  by (relation "measure (\<lambda>(n, a, b, c). nat n)") auto

function hanoi_count_calls :: "int \<Rightarrow> 'p \<Rightarrow> 'p \<Rightarrow> 'p \<Rightarrow> nat" where
  "hanoi_count_calls n_disks start_pole free_pole end_pole =
     (if n_disks > 0 then
        1 + hanoi_count_calls (n_disks - 1) start_pole end_pole free_pole
          + hanoi_count_calls (n_disks - 1) free_pole start_pole end_pole
      else 1)"
  by pat_completeness auto
termination
  by (relation "measure (\<lambda>(n, a, b, c). nat n)") auto

declare hanoi.simps [simp del] hanoi_count.simps [simp del]
  hanoi_calls.simps [simp del] hanoi_count_calls.simps [simp del]

section \<open>The memoizing cache\<close>

text \<open>
  The decorator \<^verbatim>\<open>lru_cache\<close> comes from Python's \<^verbatim>\<open>functools\<close>; its code is not part of
  the notebook. The cache is therefore modelled from the specification's sections 3, 4.1
  and 6: an ordered mapping from keys to results, bounded by a capacity, with
  least-recently-used eviction. The list of entries is the recency order: the head is the
  most recently used entry, the last element the least recently used one.
\<close>

text \<open>Modelled from the spec: the Cache of section 3 (entries in recency order, the
  capacity, \<open>None\<close> being unbounded) with the counters that \<^verbatim>\<open>stats()\<close> of section 6 reports;
  \<^verbatim>\<open>functools.lru_cache\<close> itself is not in the repository.\<close>

record ('k, 'v) cache =
  entries :: "('k \<times> 'v) list"
  capacity :: "nat option"
  hits :: nat
  misses :: nat

text \<open>Modelled from the spec: \<^verbatim>\<open>new_cache(capacity: optional positive integer)\<close>; a
  capacity that is unset, or zero, means unbounded.\<close>

definition new_cache :: "nat option \<Rightarrow> ('k, 'v) cache" where
  "new_cache cap =
     \<lparr>entries = [], capacity = (if cap = Some 0 then None else cap), hits = 0, misses = 0\<rparr>"

text \<open>Modelled from the spec: \<^verbatim>\<open>size(Cache)\<close>, the number of entries.\<close>

definition size_cache :: "('k, 'v) cache \<Rightarrow> nat" where
  "size_cache c = length (entries c)"

text \<open>Modelled from the spec: \<^verbatim>\<open>stats()\<close>, read-only: hits, misses, size, capacity.\<close>

definition stats :: "('k, 'v) cache \<Rightarrow> nat \<times> nat \<times> nat \<times> nat option" where
  "stats c = (hits c, misses c, size_cache c, capacity c)"

text \<open>Modelled from the spec: the lookup of a key; two keys are equal iff all their
  positional values are equal, in the same order.\<close>

definition cache_lookup :: "('k, 'v) cache \<Rightarrow> 'k \<Rightarrow> 'v option" where
  "cache_lookup c key = map_of (entries c) key"

text \<open>Modelled from the spec: marking a key as most recently used (on a hit), and storing
  a result under a key as the most recently used entry (on a miss). A key has one entry.\<close>

definition store_mru :: "'k \<Rightarrow> 'v \<Rightarrow> ('k, 'v) cache \<Rightarrow> ('k, 'v) cache" where
  "store_mru key r c = c\<lparr>entries := (key, r) # filter (\<lambda>e. fst e \<noteq> key) (entries c)\<rparr>"

text \<open>Modelled from the spec: the test \<^verbatim>\<open>size(Cache) > capacity\<close>, for a finite capacity
  only.\<close>

definition over_capacity :: "('k, 'v) cache \<Rightarrow> bool" where
  "over_capacity c = (case capacity c of None \<Rightarrow> False | Some n \<Rightarrow> n < size_cache c)"

text \<open>Modelled from the spec: the eviction of the entry currently marked least recently
  used.\<close>

definition evict_lru :: "('k, 'v) cache \<Rightarrow> ('k, 'v) cache" where
  "evict_lru c = c\<lparr>entries := butlast (entries c)\<rparr>"

text \<open>Modelled from the spec: steps 2 and 3 of \<^verbatim>\<open>get_or_compute\<close> after the computation
  has returned: the result is stored as the most recently used entry, and if the size
  then exceeds the capacity the least recently used entry is evicted.\<close>

definition miss_insert :: "'k \<Rightarrow> 'v \<Rightarrow> ('k, 'v) cache \<Rightarrow> ('k, 'v) cache" where
  "miss_insert key r c =
     (let c = store_mru key r (c\<lparr>misses := misses c + 1\<rparr>)
      in if over_capacity c then evict_lru c else c)"

text \<open>Modelled from the spec: \<^verbatim>\<open>get_or_compute(key, compute_fn)\<close> of section 4.1. A hit
  promotes the key and returns the stored result without invoking \<^verbatim>\<open>compute_fn\<close>; a miss
  invokes it, stores the result and evicts on overflow. The deferred computation runs
  while the cache exists and may itself go through the cache (the memoized function
  calls itself), so it takes the cache and returns it with its result. The counter
  \<open>misses\<close> is the number of invocations of \<^verbatim>\<open>compute_fn\<close>.\<close>

definition get_or_compute ::
  "'k \<Rightarrow> (('k, 'v) cache \<Rightarrow> 'v \<times> ('k, 'v) cache) \<Rightarrow> ('k, 'v) cache \<Rightarrow> 'v \<times> ('k, 'v) cache" where
  "get_or_compute key compute_fn c =
     (case cache_lookup c key of
        Some r \<Rightarrow> (r, (store_mru key r c)\<lparr>hits := hits c + 1\<rparr>)
      | None \<Rightarrow> (case compute_fn c of (r, c) \<Rightarrow> (r, miss_insert key r c)))"

text \<open>Modelled from the spec: \<^verbatim>\<open>clear()\<close> empties all entries and the recency state.\<close>

definition clear :: "('k, 'v) cache \<Rightarrow> ('k, 'v) cache" where
  "clear c = c\<lparr>entries := []\<rparr>"

text \<open>Modelled from the spec: \<^verbatim>\<open>configure(capacity)\<close> sets the capacity and evicts least
  recently used entries repeatedly until the size fits; unbounded disables eviction.\<close>

function shrink :: "('k, 'v) cache \<Rightarrow> ('k, 'v) cache" where
  "shrink c = (if over_capacity c then shrink (evict_lru c) else c)"
  by pat_completeness auto
termination
  by (relation "measure size_cache")
    (auto simp: over_capacity_def evict_lru_def size_cache_def split: option.splits)

definition configure :: "nat option \<Rightarrow> ('k, 'v) cache \<Rightarrow> ('k, 'v) cache" where
  "configure cap c = shrink (c\<lparr>capacity := (if cap = Some 0 then None else cap)\<rparr>)"

declare shrink.simps [simp del]

subsection \<open>Sequences of cache operations\<close>

text \<open>
  An operation on the cache as a value: a \<^verbatim>\<open>get_or_compute\<close> whose pure computation
  returns the given result, a \<^verbatim>\<open>clear\<close>, or a \<^verbatim>\<open>configure\<close>. \<open>run_ops\<close> lists the cache
  after each operation of a sequence.
\<close>

datatype ('k, 'v) cache_op = Get 'k 'v | Clear | Configure "nat option"

fun apply_cache_op :: "('k, 'v) cache_op \<Rightarrow> ('k, 'v) cache \<Rightarrow> ('k, 'v) cache" where
  "apply_cache_op (Get key r) c = snd (get_or_compute key (\<lambda>c. (r, c)) c)"
| "apply_cache_op Clear c = clear c"
| "apply_cache_op (Configure cap) c = configure cap c"

fun run_ops :: "('k, 'v) cache_op list \<Rightarrow> ('k, 'v) cache \<Rightarrow> ('k, 'v) cache list" where
  "run_ops [] c = []"
| "run_ops (opn # ops) c = apply_cache_op opn c # run_ops ops (apply_cache_op opn c)"

text \<open>The capacity invariant of section 3.\<close>

definition within_capacity :: "('k, 'v) cache \<Rightarrow> bool" where
  "within_capacity c = (case capacity c of None \<Rightarrow> True | Some n \<Rightarrow> size_cache c \<le> n)"

section \<open>The memoized step-counting function\<close>

text \<open>
  \<^verbatim>\<open>
  @lru_cache()
  def hanoi_count(n_disks, start_pole, free_pole, end_pole):
      steps = 0
      if n_disks > 0:
          steps += hanoi_count(n_disks - 1, start_pole, end_pole, free_pole)
          steps += 1
          steps += hanoi_count(n_disks - 1, free_pole, start_pole, end_pole)
      return steps
  \<close>
  The decorator rebinds the name, so the recursive calls of the body go through the
  cache as well. The key of a call is the tuple of its four arguments. The decorator is
  written without \<^verbatim>\<open>maxsize\<close>, for which \<^verbatim>\<open>functools\<close> takes 128; the capacity is a field of
  the cache that the function receives, so the results below hold for every capacity
  unless they say otherwise.
\<close>

type_synonym 'p key = "int \<times> 'p \<times> 'p \<times> 'p"

definition lru_cache_maxsize :: "nat option" where
  "lru_cache_maxsize = Some 128"

function hanoi_count_memo ::
  "int \<Rightarrow> 'p \<Rightarrow> 'p \<Rightarrow> 'p \<Rightarrow> ('p key, int) cache \<Rightarrow> int \<times> ('p key, int) cache" where
  "hanoi_count_memo n_disks start_pole free_pole end_pole c =
     get_or_compute (n_disks, start_pole, free_pole, end_pole)
       (\<lambda>c. let steps = 0 in
            if n_disks > 0 then
              let (r, c) = hanoi_count_memo (n_disks - 1) start_pole end_pole free_pole c;
                  steps = steps + r;
                  steps = steps + 1;
                  (r, c) = hanoi_count_memo (n_disks - 1) free_pole start_pole end_pole c;
                  steps = steps + r
              in (steps, c)
            else (steps, c))
       c"
  by pat_completeness auto
termination
  by (relation "measure (\<lambda>(n, a, b, c, s). nat n)") auto

declare hanoi_count_memo.simps [simp del]

text \<open>The plain function on a key, and the cache states all of whose entries hold the
  plain function's value for their key.\<close>

definition hanoi_count_key :: "'p key \<Rightarrow> int" where
  "hanoi_count_key k = (case k of (n, a, b, c) \<Rightarrow> hanoi_count n a b c)"

definition valid_cache :: "('p key, int) cache \<Rightarrow> bool" where
  "valid_cache c = list_all (\<lambda>e. snd e = hanoi_count_key (fst e)) (entries c)"

text \<open>The keys of the calls that a call with the given arguments reaches, itself
  included, following the two recursive calls of the body.\<close>

function reachable_keys :: "int \<Rightarrow> 'p \<Rightarrow> 'p \<Rightarrow> 'p \<Rightarrow> 'p key set" where
  "reachable_keys n_disks start_pole free_pole end_pole =
     (if n_disks > 0 then
        insert (n_disks, start_pole, free_pole, end_pole)
          (reachable_keys (n_disks - 1) start_pole end_pole free_pole
           \<union> reachable_keys (n_disks - 1) free_pole start_pole end_pole)
      else {(n_disks, start_pole, free_pole, end_pole)})"
  by pat_completeness auto
termination
  by (relation "measure (\<lambda>(n, a, b, c). nat n)") auto

declare reachable_keys.simps [simp del]

subsection \<open>Notions used in the proofs\<close>

text \<open>The keys that a cache holds, and the caches in which no key has two entries.\<close>

definition cache_keys :: "('k, 'v) cache \<Rightarrow> 'k set" where
  "cache_keys c = fst ` set (entries c)"

definition distinct_keys :: "('k, 'v) cache \<Rightarrow> bool" where
  "distinct_keys c = distinct (map fst (entries c))"

text \<open>A cache is closed when it holds, with every key, all keys that the call with that
  key reaches: an unbounded cache stays so.\<close>

definition keys_closed :: "('p key, int) cache \<Rightarrow> bool" where
  "keys_closed s =
     (\<forall>k \<in> cache_keys s. case k of (n, a, b, c) \<Rightarrow> reachable_keys n a b c \<subseteq> cache_keys s)"

text \<open>The three rotations of a triple of poles; the other three permutations are the
  rotations of the triple with its last two poles exchanged. Below a call with \<open>n\<close>
  disks, the calls with \<open>j < n\<close> disks have their poles in one of the two classes,
  according to the parity of \<open>n - j\<close>.\<close>

definition pole_rotations :: "'p \<Rightarrow> 'p \<Rightarrow> 'p \<Rightarrow> ('p \<times> 'p \<times> 'p) set" where
  "pole_rotations a b c = {(a, b, c), (c, a, b), (b, c, a)}"

definition key_band :: "int \<Rightarrow> 'p \<Rightarrow> 'p \<Rightarrow> 'p \<Rightarrow> 'p key set" where
  "key_band n a b c =
     (SIGMA j : {0..<n}. if even (n - j) then pole_rotations a b c else pole_rotations a c b)"

text \<open>The number of entries more recently used than the entry of a key (the size of the
  cache when the key has no entry).\<close>

definition entry_depth :: "'k \<Rightarrow> ('k, 'v) cache \<Rightarrow> nat" where
  "entry_depth k c = length (takeWhile (\<lambda>e. fst e \<noteq> k) (entries c))"

section \<open>Properties of the plain functions\<close>

lemma hanoi_count_pos:
  "0 < n \<Longrightarrow> hanoi_count n a b c = hanoi_count (n - 1) a c b + 1 + hanoi_count (n - 1) b a c"
  by (subst hanoi_count.simps) (simp add: Let_def)

lemma hanoi_count_nonpos: "n \<le> 0 \<Longrightarrow> hanoi_count n a b c = 0"
  by (subst hanoi_count.simps) (simp add: Let_def)

lemma hanoi_pos:
  "0 < n \<Longrightarrow> hanoi n a b c =
     hanoi (n - 1) a c b
     @ [''Move disk '' @ str_int n @ '' from rod '' @ a @ '' to rod '' @ c]
     @ hanoi (n - 1) b a c"
  by (subst hanoi.simps) (simp add: Let_def)

lemma hanoi_nonpos: "n \<le> 0 \<Longrightarrow> hanoi n a b c = []"
  by (subst hanoi.simps) (simp add: Let_def)

lemma hanoi_count_power: "0 \<le> n \<Longrightarrow> hanoi_count n a b c = 2 ^ nat n - 1"
proof (induction n a b c rule: hanoi_count.induct)
  case (1 n a b c)
  show ?case
  proof (cases "0 < n")
    case True
    then have e: "nat n = Suc (nat (n - 1))" by simp
    from True 1 have "hanoi_count (n - 1) a c b = 2 ^ nat (n - 1) - 1"
      and "hanoi_count (n - 1) b a c = 2 ^ nat (n - 1) - 1" by simp_all
    then show ?thesis using True by (simp add: hanoi_count_pos e)
  next
    case False
    with 1 show ?thesis by (simp add: hanoi_count_nonpos)
  qed
qed

text \<open>The first output of the notebook: the seven moves for three disks.\<close>

lemma hanoi_three_disks:
  "hanoi 3 ''A'' ''B'' ''C'' =
     [''Move disk 1 from rod A to rod C'', ''Move disk 2 from rod A to rod B'',
      ''Move disk 1 from rod C to rod B'', ''Move disk 3 from rod A to rod C'',
      ''Move disk 1 from rod B to rod A'', ''Move disk 2 from rod B to rod C'',
      ''Move disk 1 from rod A to rod C'']"
  by code_simp

text \<open>
  C1. The step count satisfies the recurrence of the specification: for every
  \<open>n > 0\<close> and all poles, \<open>hanoi_count n a b c\<close> is the count for \<open>n - 1\<close> disks from
  \<open>a\<close> to \<open>b\<close>, plus one, plus the count for \<open>n - 1\<close> disks from \<open>b\<close> to \<open>c\<close>; and the
  count for zero disks is zero.
\<close>

theorem hanoi_count_recurrence:
  "(0 < n \<longrightarrow>
      hanoi_count n a b c = hanoi_count (n - 1) a c b + 1 + hanoi_count (n - 1) b a c)
   \<and> hanoi_count 0 a b c = 0"
  by (simp add: hanoi_count_pos hanoi_count_nonpos)

theorem hanoi_count_recurrence_witness:
  "(0::int) < 3
   \<and> hanoi_count 3 ''A'' ''B'' ''C''
       = hanoi_count (3 - 1) ''A'' ''C'' ''B'' + 1 + hanoi_count (3 - 1) ''B'' ''A'' ''C''
   \<and> hanoi_count 0 ''A'' ''B'' ''C'' = 0"
  using hanoi_count_recurrence [of 3 "''A''" "''B''" "''C''"] by simp

text \<open>
  C3. For every \<open>n \<ge> 0\<close> and all poles the plain \<open>hanoi_count\<close> returns \<open>2 ^ n - 1\<close>:
  each unit of the result is one execution of \<^verbatim>\<open>steps += 1\<close>.
\<close>

theorem hanoi_count_closed_form: "0 \<le> n \<Longrightarrow> hanoi_count n a b c = 2 ^ nat n - 1"
  by (rule hanoi_count_power)

theorem hanoi_count_closed_form_witness:
  "(0::int) \<le> 24 \<and> hanoi_count 24 ''A'' ''B'' ''C'' = 16777215"
  using hanoi_count_closed_form [of 24 "''A''" "''B''" "''C''"] by simp

text \<open>C4. The call \<^verbatim>\<open>hanoi_count(3, "A", "B", "C")\<close> returns 7.\<close>

theorem hanoi_count_three_disks: "hanoi_count 3 ''A'' ''B'' ''C'' = 7"
  by (simp add: hanoi_count_pos hanoi_count_nonpos)

text \<open>
  C9. The move list that \<open>hanoi\<close> returns has as many elements as \<open>hanoi_count\<close>
  counts, for every number of disks (negative ones included) and all poles.
\<close>

theorem length_hanoi: "int (length (hanoi n a b c)) = hanoi_count n a b c"
proof (induction n a b c rule: hanoi.induct)
  case (1 n a b c)
  show ?case
  proof (cases "0 < n")
    case True
    with 1 show ?thesis by (simp add: hanoi_pos hanoi_count_pos)
  next
    case False
    then show ?thesis by (simp add: hanoi_nonpos hanoi_count_nonpos)
  qed
qed

text \<open>
  C10. For every \<open>n \<le> 0\<close>, negative values included, \<open>hanoi\<close> returns the empty list
  and \<open>hanoi_count\<close> returns 0, each in a single activation: the guard \<^verbatim>\<open>n_disks > 0\<close>
  fails and no recursive call is made. Both functions are total on the integers: their
  definitions are accepted with the measure \<open>nat n\<close>.
\<close>

theorem nonpositive_disks:
  "n \<le> 0 \<Longrightarrow>
     hanoi n a b c = [] \<and> hanoi_calls n a b c = 1
     \<and> hanoi_count n x y z = 0 \<and> hanoi_count_calls n x y z = 1"
  by (simp add: hanoi_nonpos hanoi_count_nonpos hanoi_calls.simps hanoi_count_calls.simps)

theorem nonpositive_disks_witness:
  "(-5::int) \<le> 0
   \<and> hanoi (-5) ''A'' ''B'' ''C'' = [] \<and> hanoi_calls (-5) ''A'' ''B'' ''C'' = 1
   \<and> hanoi_count (-5) ''A'' ''B'' ''C'' = 0 \<and> hanoi_count_calls (-5) ''A'' ''B'' ''C'' = 1"
  using nonpositive_disks [of "-5" "''A''" "''B''" "''C''" "''A''" "''B''" "''C''"] by simp

section \<open>Properties of the cache\<close>

subsection \<open>The capacity\<close>

lemma size_cache_counters [simp]:
  "size_cache (c\<lparr>hits := h\<rparr>) = size_cache c"
  "size_cache (c\<lparr>misses := m\<rparr>) = size_cache c"
  by (simp_all add: size_cache_def)

lemma within_capacity_counters [simp]:
  "within_capacity (c\<lparr>hits := h\<rparr>) = within_capacity c"
  "within_capacity (c\<lparr>misses := m\<rparr>) = within_capacity c"
  by (simp_all add: within_capacity_def split: option.splits)

lemma over_capacity_counters [simp]:
  "over_capacity (c\<lparr>hits := h\<rparr>) = over_capacity c"
  "over_capacity (c\<lparr>misses := m\<rparr>) = over_capacity c"
  by (simp_all add: over_capacity_def split: option.splits)

lemma store_mru_counters:
  "store_mru k r (c\<lparr>hits := h\<rparr>) = (store_mru k r c)\<lparr>hits := h\<rparr>"
  "store_mru k r (c\<lparr>misses := m\<rparr>) = (store_mru k r c)\<lparr>misses := m\<rparr>"
  by (simp_all add: store_mru_def)

lemma size_store_mru_le: "size_cache (store_mru k r c) \<le> Suc (size_cache c)"
  by (simp add: size_cache_def store_mru_def le_SucI)

lemma length_filter_key_less:
  "map_of xs k = Some v \<Longrightarrow> length (filter (\<lambda>e. fst e \<noteq> k) xs) < length xs"
  by (rule length_filter_less [where x = "(k, v)"]) (auto dest: map_of_SomeD)

lemma filter_key_absent:
  "map_of xs k = None \<Longrightarrow> filter (\<lambda>e. fst e \<noteq> k) xs = xs"
  by (induction xs) (auto split: if_splits)

lemma size_store_mru_hit:
  "cache_lookup c k = Some v \<Longrightarrow> size_cache (store_mru k r c) \<le> size_cache c"
  using length_filter_key_less [of "entries c" k v]
  by (simp add: size_cache_def store_mru_def cache_lookup_def)

lemma within_capacity_evict_if_over:
  "size_cache c \<le> Suc m \<Longrightarrow> capacity c = Some m \<Longrightarrow>
     within_capacity (if over_capacity c then evict_lru c else c)"
  by (auto simp: within_capacity_def over_capacity_def evict_lru_def size_cache_def)

lemma within_capacity_miss_insert:
  assumes "within_capacity c"
  shows "within_capacity (miss_insert k r c)"
proof (cases "capacity c")
  case None
  then show ?thesis
    by (simp add: within_capacity_def miss_insert_def Let_def over_capacity_def store_mru_def)
next
  case (Some m)
  let ?c = "store_mru k r (c\<lparr>misses := misses c + 1\<rparr>)"
  from assms Some have "size_cache c \<le> m" by (simp add: within_capacity_def)
  with size_store_mru_le [of k r "c\<lparr>misses := misses c + 1\<rparr>"]
  have "size_cache ?c \<le> Suc m" by (simp add: size_cache_def)
  moreover from Some have "capacity ?c = Some m" by (simp add: store_mru_def)
  ultimately show ?thesis
    unfolding miss_insert_def Let_def by (rule within_capacity_evict_if_over)
qed

lemma within_capacity_hit:
  "within_capacity c \<Longrightarrow> cache_lookup c k = Some v \<Longrightarrow> within_capacity (store_mru k v c)"
  using size_store_mru_hit [of c k v v]
  by (auto simp: within_capacity_def store_mru_def size_cache_def split: option.splits)

lemma within_capacity_get_pure:
  "within_capacity c \<Longrightarrow> within_capacity (snd (get_or_compute k (\<lambda>c. (r, c)) c))"
  by (auto simp: get_or_compute_def within_capacity_miss_insert within_capacity_hit
        split: option.splits)

lemma within_capacity_clear: "within_capacity (clear c)"
  by (simp add: within_capacity_def clear_def size_cache_def split: option.splits)

lemma within_capacity_shrink: "within_capacity (shrink c)"
proof (induction c rule: shrink.induct)
  case (1 c)
  show ?case
  proof (cases "over_capacity c")
    case True
    with 1 show ?thesis by (subst shrink.simps) simp
  next
    case False
    then have "within_capacity c"
      by (auto simp: over_capacity_def within_capacity_def split: option.splits)
    with False show ?thesis by (subst shrink.simps) simp
  qed
qed

lemma within_capacity_apply:
  "within_capacity c \<Longrightarrow> within_capacity (apply_cache_op opn c)"
  by (cases opn)
    (simp_all add: within_capacity_get_pure within_capacity_clear within_capacity_shrink
      configure_def)

lemma within_capacity_run_ops:
  "within_capacity c \<Longrightarrow> list_all within_capacity (run_ops ops c)"
  by (induction ops arbitrary: c) (simp_all add: within_capacity_apply)

lemma store_mru_absent:
  "cache_lookup c k = None \<Longrightarrow> entries (store_mru k r c) = (k, r) # entries c"
  by (simp add: store_mru_def cache_lookup_def filter_key_absent)

lemma miss_insert_full:
  assumes "capacity c = Some (size_cache c)" and "cache_lookup c k = None"
  shows "entries (miss_insert k r c) = butlast ((k, r) # entries c)"
proof -
  let ?c = "store_mru k r (c\<lparr>misses := misses c + 1\<rparr>)"
  from assms(2) have e: "entries ?c = (k, r) # entries c"
    using store_mru_absent [of "c\<lparr>misses := misses c + 1\<rparr>" k r]
    by (simp add: cache_lookup_def)
  with assms(1) have "over_capacity ?c"
    by (simp add: over_capacity_def size_cache_def store_mru_def)
  then have "miss_insert k r c = evict_lru ?c" by (simp add: miss_insert_def Let_def)
  with e show ?thesis by (simp add: evict_lru_def)
qed

lemma miss_insert_room:
  assumes "\<not> over_capacity (store_mru k r c)"
  shows "entries (miss_insert k r c) = entries (store_mru k r c)"
proof -
  let ?c = "store_mru k r (c\<lparr>misses := misses c + 1\<rparr>)"
  from assms have "\<not> over_capacity ?c"
    by (simp add: store_mru_counters)
  then have "miss_insert k r c = ?c" by (simp add: miss_insert_def Let_def)
  then show ?thesis by (simp add: store_mru_def)
qed

section \<open>Properties of the memoized function\<close>

subsection \<open>The three ways a call proceeds\<close>

lemma memo_hit:
  "cache_lookup s (n, a, b, c) = Some r \<Longrightarrow>
     hanoi_count_memo n a b c s = (r, (store_mru (n, a, b, c) r s)\<lparr>hits := hits s + 1\<rparr>)"
  by (subst hanoi_count_memo.simps) (simp add: get_or_compute_def)

lemma memo_miss_nonpos:
  "cache_lookup s (n, a, b, c) = None \<Longrightarrow> n \<le> 0 \<Longrightarrow>
     hanoi_count_memo n a b c s = (0, miss_insert (n, a, b, c) 0 s)"
  by (subst hanoi_count_memo.simps) (simp add: get_or_compute_def)

lemma memo_miss_pos:
  "cache_lookup s (n, a, b, c) = None \<Longrightarrow> 0 < n \<Longrightarrow>
     hanoi_count_memo n a b c s =
       (case hanoi_count_memo (n - 1) a c b s of
          (r1, s1) \<Rightarrow>
            (case hanoi_count_memo (n - 1) b a c s1 of
               (r2, s2) \<Rightarrow> (r1 + 1 + r2, miss_insert (n, a, b, c) (r1 + 1 + r2) s2)))"
  by (subst hanoi_count_memo.simps) (simp add: get_or_compute_def Let_def split: prod.splits)

text \<open>An induction rule following the three ways a memoized call proceeds.\<close>

lemma memo_induct [case_names hit leaf node]:
  fixes P :: "int \<Rightarrow> 'p \<Rightarrow> 'p \<Rightarrow> 'p \<Rightarrow> ('p key, int) cache \<Rightarrow> bool"
  assumes hit: "\<And>n a b c s r. cache_lookup s (n, a, b, c) = Some r \<Longrightarrow> P n a b c s"
    and leaf: "\<And>n a b c s. cache_lookup s (n, a, b, c) = None \<Longrightarrow> n \<le> 0 \<Longrightarrow> P n a b c s"
    and node: "\<And>n a b c s. cache_lookup s (n, a, b, c) = None \<Longrightarrow> 0 < n \<Longrightarrow>
        (\<And>s'. P (n - 1) a c b s') \<Longrightarrow> (\<And>s'. P (n - 1) b a c s') \<Longrightarrow> P n a b c s"
  shows "P n a b c s"
proof (induction "nat n" arbitrary: n a b c s)
  case (0 n a b c s)
  then have "n \<le> 0" by simp
  then show ?case by (cases "cache_lookup s (n, a, b, c)") (auto intro: hit leaf)
next
  case (Suc m n a b c s)
  then have pos: "0 < n" and m: "m = nat (n - 1)" by simp_all
  show ?case
  proof (cases "cache_lookup s (n, a, b, c)")
    case None
    then show ?thesis
    proof (rule node)
      show "0 < n" by (rule pos)
      show "P (n - 1) a c b s'" for s' by (rule Suc.hyps(1) [OF m])
      show "P (n - 1) b a c s'" for s' by (rule Suc.hyps(1) [OF m])
    qed
  next
    case (Some r)
    then show ?thesis by (rule hit)
  qed
qed

subsection \<open>What a call preserves\<close>

lemma capacity_store_mru [simp]: "capacity (store_mru k r c) = capacity c"
  by (simp add: store_mru_def)

lemma capacity_evict_lru [simp]: "capacity (evict_lru c) = capacity c"
  by (simp add: evict_lru_def)

lemma capacity_miss_insert [simp]: "capacity (miss_insert k r c) = capacity c"
  by (simp add: miss_insert_def Let_def)

lemma misses_store_mru [simp]: "misses (store_mru k r c) = misses c"
  by (simp add: store_mru_def)

lemma hits_store_mru [simp]: "hits (store_mru k r c) = hits c"
  by (simp add: store_mru_def)

lemma misses_miss_insert [simp]: "misses (miss_insert k r c) = misses c + 1"
  by (simp add: miss_insert_def Let_def evict_lru_def)

lemma hits_miss_insert [simp]: "hits (miss_insert k r c) = hits c"
  by (simp add: miss_insert_def Let_def evict_lru_def)

lemma valid_cache_counters [simp]:
  "valid_cache (c\<lparr>hits := h\<rparr>) = valid_cache c"
  "valid_cache (c\<lparr>misses := m\<rparr>) = valid_cache c"
  by (simp_all add: valid_cache_def)

lemma valid_cache_store_mru:
  "valid_cache c \<Longrightarrow> r = hanoi_count_key k \<Longrightarrow> valid_cache (store_mru k r c)"
  by (simp add: valid_cache_def store_mru_def list_all_iff)

lemma valid_cache_evict_lru: "valid_cache c \<Longrightarrow> valid_cache (evict_lru c)"
  by (auto simp: valid_cache_def evict_lru_def list_all_iff dest: in_set_butlastD)

lemma valid_cache_miss_insert:
  "valid_cache c \<Longrightarrow> r = hanoi_count_key k \<Longrightarrow> valid_cache (miss_insert k r c)"
  by (simp add: miss_insert_def Let_def valid_cache_store_mru valid_cache_evict_lru)

lemma valid_cache_lookup:
  "valid_cache c \<Longrightarrow> cache_lookup c k = Some v \<Longrightarrow> v = hanoi_count_key k"
  by (auto simp: valid_cache_def cache_lookup_def list_all_iff dest!: map_of_SomeD)

lemma valid_cache_new [simp]: "valid_cache (new_cache cap)"
  by (simp add: valid_cache_def new_cache_def)

lemma memo_valid:
  "valid_cache s \<Longrightarrow>
     fst (hanoi_count_memo n a b c s) = hanoi_count n a b c
     \<and> valid_cache (snd (hanoi_count_memo n a b c s))"
proof (induction n a b c s rule: memo_induct)
  case (hit n a b c s r)
  then show ?case
    using valid_cache_lookup [of s "(n, a, b, c)" r]
    by (simp add: memo_hit valid_cache_store_mru hanoi_count_key_def)
next
  case (leaf n a b c s)
  then show ?case
    by (simp add: memo_miss_nonpos hanoi_count_nonpos valid_cache_miss_insert
        hanoi_count_key_def)
next
  case (node n a b c s)
  obtain r1 s1 where c1: "hanoi_count_memo (n - 1) a c b s = (r1, s1)" by fastforce
  obtain r2 s2 where c2: "hanoi_count_memo (n - 1) b a c s1 = (r2, s2)" by fastforce
  from node.IH(1) [of s] node.prems c1
  have r1: "r1 = hanoi_count (n - 1) a c b" and v1: "valid_cache s1" by simp_all
  from node.IH(2) [of s1] v1 c2
  have r2: "r2 = hanoi_count (n - 1) b a c" and v2: "valid_cache s2" by simp_all
  from node.hyps r1 r2 v2 show ?case
    by (simp add: memo_miss_pos c1 c2 hanoi_count_pos valid_cache_miss_insert
        hanoi_count_key_def)
qed

lemma memo_capacity: "capacity (snd (hanoi_count_memo n a b c s)) = capacity s"
proof (induction n a b c s rule: memo_induct)
  case (hit n a b c s r)
  then show ?case by (simp add: memo_hit)
next
  case (leaf n a b c s)
  then show ?case by (simp add: memo_miss_nonpos)
next
  case (node n a b c s)
  obtain r1 s1 where c1: "hanoi_count_memo (n - 1) a c b s = (r1, s1)" by fastforce
  obtain r2 s2 where c2: "hanoi_count_memo (n - 1) b a c s1 = (r2, s2)" by fastforce
  from node.IH(1) [of s] node.IH(2) [of s1] node.hyps show ?case
    by (simp add: memo_miss_pos c1 c2)
qed

lemma memo_counters:
  "misses s \<le> misses (snd (hanoi_count_memo n a b c s))
   \<and> hits s \<le> hits (snd (hanoi_count_memo n a b c s))"
proof (induction n a b c s rule: memo_induct)
  case (hit n a b c s r)
  then show ?case by (simp add: memo_hit)
next
  case (leaf n a b c s)
  then show ?case by (simp add: memo_miss_nonpos)
next
  case (node n a b c s)
  obtain r1 s1 where c1: "hanoi_count_memo (n - 1) a c b s = (r1, s1)" by fastforce
  obtain r2 s2 where c2: "hanoi_count_memo (n - 1) b a c s1 = (r2, s2)" by fastforce
  from node.IH(1) [of s] node.IH(2) [of s1] node.hyps show ?case
    by (simp add: memo_miss_pos c1 c2)
qed

text \<open>A miss invokes the body: the counter of invocations grows.\<close>

lemma memo_miss_invokes:
  "cache_lookup s (n, a, b, c) = None \<Longrightarrow>
     misses s < misses (snd (hanoi_count_memo n a b c s))"
proof (cases "0 < n")
  case False
  assume "cache_lookup s (n, a, b, c) = None"
  with False show ?thesis by (simp add: memo_miss_nonpos)
next
  case True
  assume none: "cache_lookup s (n, a, b, c) = None"
  obtain r1 s1 where c1: "hanoi_count_memo (n - 1) a c b s = (r1, s1)" by fastforce
  obtain r2 s2 where c2: "hanoi_count_memo (n - 1) b a c s1 = (r2, s2)" by fastforce
  from memo_counters [of s "n - 1" a c b] memo_counters [of s1 "n - 1" b a c] none True
  show ?thesis by (simp add: memo_miss_pos c1 c2)
qed

lemma distinct_keys_counters [simp]:
  "distinct_keys (c\<lparr>hits := h\<rparr>) = distinct_keys c"
  "distinct_keys (c\<lparr>misses := m\<rparr>) = distinct_keys c"
  by (simp_all add: distinct_keys_def)

lemma distinct_keys_store_mru: "distinct_keys c \<Longrightarrow> distinct_keys (store_mru k r c)"
  by (auto simp: distinct_keys_def store_mru_def distinct_map_filter)

lemma distinct_keys_evict_lru: "distinct_keys c \<Longrightarrow> distinct_keys (evict_lru c)"
  by (simp add: distinct_keys_def evict_lru_def map_butlast distinct_butlast)

lemma distinct_keys_miss_insert: "distinct_keys c \<Longrightarrow> distinct_keys (miss_insert k r c)"
  by (simp add: miss_insert_def Let_def distinct_keys_store_mru distinct_keys_evict_lru)

lemma memo_distinct_keys:
  "distinct_keys s \<Longrightarrow> distinct_keys (snd (hanoi_count_memo n a b c s))"
proof (induction n a b c s rule: memo_induct)
  case (hit n a b c s r)
  then show ?case by (simp add: memo_hit distinct_keys_store_mru)
next
  case (leaf n a b c s)
  then show ?case by (simp add: memo_miss_nonpos distinct_keys_miss_insert)
next
  case (node n a b c s)
  obtain r1 s1 where c1: "hanoi_count_memo (n - 1) a c b s = (r1, s1)" by fastforce
  obtain r2 s2 where c2: "hanoi_count_memo (n - 1) b a c s1 = (r2, s2)" by fastforce
  from node.IH(1) [of s] node.prems c1 have "distinct_keys s1" by simp
  with node.IH(2) [of s1] c2 have "distinct_keys s2" by simp
  with node.hyps show ?case
    by (simp add: memo_miss_pos c1 c2 distinct_keys_miss_insert)
qed

lemma memo_within_capacity:
  "within_capacity s \<Longrightarrow> within_capacity (snd (hanoi_count_memo n a b c s))"
proof (induction n a b c s rule: memo_induct)
  case (hit n a b c s r)
  then show ?case by (simp add: memo_hit within_capacity_hit)
next
  case (leaf n a b c s)
  then show ?case by (simp add: memo_miss_nonpos within_capacity_miss_insert)
next
  case (node n a b c s)
  obtain r1 s1 where c1: "hanoi_count_memo (n - 1) a c b s = (r1, s1)" by fastforce
  obtain r2 s2 where c2: "hanoi_count_memo (n - 1) b a c s1 = (r2, s2)" by fastforce
  from node.IH(1) [of s] node.prems c1 have "within_capacity s1" by simp
  with node.IH(2) [of s1] c2 have "within_capacity s2" by simp
  with node.hyps show ?case
    by (simp add: memo_miss_pos c1 c2 within_capacity_miss_insert)
qed

text \<open>After a call the key of the call is cached, as the most recently used entry,
  unless the capacity is zero.\<close>

lemma lookup_store_mru [simp]: "cache_lookup (store_mru k r c) k = Some r"
  by (simp add: cache_lookup_def store_mru_def)

lemma lookup_miss_insert:
  "capacity c \<noteq> Some 0 \<Longrightarrow> cache_lookup (miss_insert k r c) k = Some r"
  by (auto simp: miss_insert_def Let_def over_capacity_def evict_lru_def cache_lookup_def
      store_mru_def size_cache_def butlast.simps split: option.splits)

lemma memo_caches_key:
  assumes "capacity s \<noteq> Some 0"
  shows "cache_lookup (snd (hanoi_count_memo n a b c s)) (n, a, b, c)
           = Some (fst (hanoi_count_memo n a b c s))"
proof (cases "cache_lookup s (n, a, b, c)")
  case (Some r)
  then show ?thesis by (simp add: memo_hit cache_lookup_def store_mru_def)
next
  case None
  show ?thesis
  proof (cases "0 < n")
    case False
    with None assms show ?thesis by (simp add: memo_miss_nonpos lookup_miss_insert)
  next
    case True
    obtain r1 s1 where c1: "hanoi_count_memo (n - 1) a c b s = (r1, s1)" by fastforce
    obtain r2 s2 where c2: "hanoi_count_memo (n - 1) b a c s1 = (r2, s2)" by fastforce
    from memo_capacity [of "n - 1" a c b s] memo_capacity [of "n - 1" b a c s1] assms c1 c2
    have "capacity s2 \<noteq> Some 0" by simp
    with None True show ?thesis by (simp add: memo_miss_pos c1 c2 lookup_miss_insert)
  qed
qed

subsection \<open>The keys of the cache and the keys a call reaches\<close>

lemma lookup_None_iff: "cache_lookup c k = None \<longleftrightarrow> k \<notin> cache_keys c"
  by (simp add: cache_lookup_def cache_keys_def map_of_eq_None_iff)

lemma lookup_Some_key: "cache_lookup c k = Some v \<Longrightarrow> k \<in> cache_keys c"
  using lookup_None_iff [of c k] by auto

lemma cache_keys_counters [simp]:
  "cache_keys (c\<lparr>hits := h\<rparr>) = cache_keys c"
  "cache_keys (c\<lparr>misses := m\<rparr>) = cache_keys c"
  by (simp_all add: cache_keys_def)

lemma cache_keys_store_mru [simp]: "cache_keys (store_mru k r c) = insert k (cache_keys c)"
proof -
  have "fst ` {e \<in> set (entries c). fst e \<noteq> k} = fst ` set (entries c) - {k}" by force
  then show ?thesis by (auto simp: cache_keys_def store_mru_def)
qed

lemma cache_keys_evict_lru: "cache_keys (evict_lru c) \<subseteq> cache_keys c"
  by (auto simp: cache_keys_def evict_lru_def dest: in_set_butlastD)

lemma cache_keys_miss_insert: "cache_keys (miss_insert k r c) \<subseteq> insert k (cache_keys c)"
  using cache_keys_evict_lru [of "store_mru k r (c\<lparr>misses := misses c + 1\<rparr>)"]
  by (auto simp: miss_insert_def Let_def)

lemma cache_keys_miss_insert_unbounded:
  "capacity c = None \<Longrightarrow> cache_keys (miss_insert k r c) = insert k (cache_keys c)"
  by (simp add: miss_insert_def Let_def over_capacity_def)

lemma reachable_keys_nonpos: "n \<le> 0 \<Longrightarrow> reachable_keys n a b c = {(n, a, b, c)}"
  by (subst reachable_keys.simps) simp

lemma reachable_keys_pos:
  "0 < n \<Longrightarrow> reachable_keys n a b c =
     insert (n, a, b, c) (reachable_keys (n - 1) a c b \<union> reachable_keys (n - 1) b a c)"
  by (subst reachable_keys.simps) simp

lemma reachable_keys_self: "(n, a, b, c) \<in> reachable_keys n a b c"
  by (subst reachable_keys.simps) simp

lemma finite_reachable_keys: "finite (reachable_keys n a b c)"
proof (induction n a b c rule: reachable_keys.induct)
  case (1 n a b c)
  show ?case
  proof (cases "0 < n")
    case True
    with 1 have "finite (reachable_keys (n - 1) a c b)"
      and "finite (reachable_keys (n - 1) b a c)" by blast+
    then show ?thesis unfolding reachable_keys_pos [OF True] by simp
  next
    case False
    then have "n \<le> 0" by simp
    then show ?thesis unfolding reachable_keys_nonpos [OF \<open>n \<le> 0\<close>] by simp
  qed
qed

lemma reachable_keys_le: "k \<in> reachable_keys n a b c \<Longrightarrow> fst k \<le> n"
proof (induction n a b c rule: reachable_keys.induct)
  case (1 n a b c)
  show ?case
  proof (cases "0 < n")
    case True
    from "1.prems" consider "k = (n, a, b, c)" | "k \<in> reachable_keys (n - 1) a c b"
      | "k \<in> reachable_keys (n - 1) b a c"
      unfolding reachable_keys_pos [OF True] by blast
    then show ?thesis
    proof cases
      case 1
      then show ?thesis by simp
    next
      case 2
      with "1.IH"(1) [OF True] have "fst k \<le> n - 1" by blast
      then show ?thesis by simp
    next
      case 3
      with "1.IH"(2) [OF True] have "fst k \<le> n - 1" by blast
      then show ?thesis by simp
    qed
  next
    case False
    then have "n \<le> 0" by simp
    with "1.prems" show ?thesis unfolding reachable_keys_nonpos [OF \<open>n \<le> 0\<close>] by simp
  qed
qed

lemma reachable_keys_not_parent:
  "(n, a, b, c) \<notin> reachable_keys (n - 1) a' b' c'"
proof
  assume "(n, a, b, c) \<in> reachable_keys (n - 1) a' b' c'"
  then have "fst (n, a, b, c) \<le> n - 1" by (rule reachable_keys_le)
  then show False by simp
qed

lemma memo_cache_keys:
  "cache_keys (snd (hanoi_count_memo n a b c s)) \<subseteq> cache_keys s \<union> reachable_keys n a b c"
proof (induction n a b c s rule: memo_induct)
  case (hit n a b c s r)
  then show ?case
    using lookup_Some_key [of s "(n, a, b, c)" r] by (simp add: memo_hit)
next
  case (leaf n a b c s)
  then show ?case
    using cache_keys_miss_insert [of "(n, a, b, c)" 0 s]
    unfolding reachable_keys_nonpos [OF leaf(2)] by (auto simp: memo_miss_nonpos)
next
  case (node n a b c s)
  obtain r1 s1 where c1: "hanoi_count_memo (n - 1) a c b s = (r1, s1)" by fastforce
  obtain r2 s2 where c2: "hanoi_count_memo (n - 1) b a c s1 = (r2, s2)" by fastforce
  from node.IH(1) [of s] c1
  have k1: "cache_keys s1 \<subseteq> cache_keys s \<union> reachable_keys (n - 1) a c b" by simp
  from node.IH(2) [of s1] c2
  have k2: "cache_keys s2 \<subseteq> cache_keys s1 \<union> reachable_keys (n - 1) b a c" by simp
  have "cache_keys (miss_insert (n, a, b, c) (r1 + 1 + r2) s2) \<subseteq> insert (n, a, b, c) (cache_keys s2)"
    by (rule cache_keys_miss_insert)
  with k1 k2 have "cache_keys (miss_insert (n, a, b, c) (r1 + 1 + r2) s2)
      \<subseteq> cache_keys s \<union> reachable_keys n a b c"
    unfolding reachable_keys_pos [OF node.hyps(2)] by blast
  with node.hyps show ?case by (simp add: memo_miss_pos c1 c2)
qed

text \<open>Unbounded cache: the keys and the number of invocations.\<close>

lemma card_reach_split:
  assumes "finite R1" and "finite R2" and "k \<notin> K" and "k \<notin> R1" and "k \<notin> R2"
  shows "card (insert k (R1 \<union> R2) - K) = Suc (card (R1 - K) + card (R2 - (K \<union> R1)))"
proof -
  have e: "insert k (R1 \<union> R2) - K = insert k ((R1 - K) \<union> (R2 - (K \<union> R1)))"
    using assms(3) by blast
  have d: "(R1 - K) \<inter> (R2 - (K \<union> R1)) = {}" by blast
  have k: "k \<notin> (R1 - K) \<union> (R2 - (K \<union> R1))" using assms(4,5) by blast
  have f: "finite ((R1 - K) \<union> (R2 - (K \<union> R1)))" using assms(1,2) by blast
  have "card (insert k ((R1 - K) \<union> (R2 - (K \<union> R1))))
      = Suc (card ((R1 - K) \<union> (R2 - (K \<union> R1))))"
    using f k by (rule card_insert_disjoint)
  also have "card ((R1 - K) \<union> (R2 - (K \<union> R1))) = card (R1 - K) + card (R2 - (K \<union> R1))"
    using assms(1,2) d by (intro card_Un_disjoint) auto
  finally show ?thesis unfolding e .
qed

lemma keys_closedD:
  "keys_closed s \<Longrightarrow> (n, a, b, c) \<in> cache_keys s \<Longrightarrow> reachable_keys n a b c \<subseteq> cache_keys s"
  by (auto simp: keys_closed_def)

lemma keys_closedI:
  "(\<And>n a b c. (n, a, b, c) \<in> cache_keys s \<Longrightarrow> reachable_keys n a b c \<subseteq> cache_keys s)
     \<Longrightarrow> keys_closed s"
  unfolding keys_closed_def by fast

lemma keys_closed_cong: "cache_keys s = cache_keys s' \<Longrightarrow> keys_closed s \<Longrightarrow> keys_closed s'"
  by (simp add: keys_closed_def)

lemma keys_closed_insert:
  assumes "keys_closed s" and "cache_keys s' = insert (n, a, b, c) (cache_keys s)"
    and "reachable_keys n a b c \<subseteq> cache_keys s'"
  shows "keys_closed s'"
proof (rule keys_closedI)
  fix n' a' b' c'
  assume "(n', a', b', c') \<in> cache_keys s'"
  with assms(2) consider "(n', a', b', c') = (n, a, b, c)" | "(n', a', b', c') \<in> cache_keys s"
    by auto
  then show "reachable_keys n' a' b' c' \<subseteq> cache_keys s'"
  proof cases
    case 1
    with assms(3) show ?thesis by simp
  next
    case 2
    with assms(1) have "reachable_keys n' a' b' c' \<subseteq> cache_keys s" by (rule keys_closedD)
    with assms(2) show ?thesis by auto
  qed
qed

lemma memo_unbounded:
  assumes "capacity s = None" and "keys_closed s"
  shows "cache_keys (snd (hanoi_count_memo n a b c s)) = cache_keys s \<union> reachable_keys n a b c
    \<and> misses (snd (hanoi_count_memo n a b c s))
        = misses s + card (reachable_keys n a b c - cache_keys s)
    \<and> keys_closed (snd (hanoi_count_memo n a b c s))"
  using assms
proof (induction n a b c s rule: memo_induct)
  case (hit n a b c s r)
  then have "(n, a, b, c) \<in> cache_keys s" by (auto dest: lookup_Some_key)
  with hit.prems have sub: "reachable_keys n a b c \<subseteq> cache_keys s" by (auto dest: keys_closedD)
  then have "reachable_keys n a b c - cache_keys s = {}" by auto
  then have d: "card (reachable_keys n a b c - cache_keys s) = 0" by (simp only: card.empty)
  from \<open>(n, a, b, c) \<in> cache_keys s\<close>
  have e: "insert (n, a, b, c) (cache_keys s) = cache_keys s" by auto
  have "keys_closed ((store_mru (n, a, b, c) r s)\<lparr>hits := hits s + 1\<rparr>)"
    using hit.prems(2) by (rule keys_closed_cong [rotated]) (simp add: e)
  with hit.hyps sub d e show ?case by (auto simp: memo_hit)
next
  case (leaf n a b c s)
  let ?k = "(n, a, b, c)"
  from leaf.hyps have notin: "?k \<notin> cache_keys s" by (simp add: lookup_None_iff)
  from leaf.hyps have r: "reachable_keys n a b c = {?k}" by (intro reachable_keys_nonpos)
  from leaf.prems have e: "cache_keys (miss_insert ?k 0 s) = insert ?k (cache_keys s)"
    by (simp add: cache_keys_miss_insert_unbounded)
  have "keys_closed (miss_insert ?k 0 s)"
    using leaf.prems(2) e by (rule keys_closed_insert) (simp add: r e)
  moreover from notin have "{?k} - cache_keys s = {?k}" by blast
  then have "card ({?k} - cache_keys s) = 1" by simp
  ultimately show ?case using leaf.hyps e r by (simp add: memo_miss_nonpos)
next
  case (node n a b c s)
  let ?k = "(n, a, b, c)"
  let ?R1 = "reachable_keys (n - 1) a c b" and ?R2 = "reachable_keys (n - 1) b a c"
  obtain r1 s1 where c1: "hanoi_count_memo (n - 1) a c b s = (r1, s1)" by fastforce
  obtain r2 s2 where c2: "hanoi_count_memo (n - 1) b a c s1 = (r2, s2)" by fastforce
  from memo_capacity [of "n - 1" a c b s] c1 node.prems have cap1: "capacity s1 = None" by simp
  from memo_capacity [of "n - 1" b a c s1] c2 cap1 have cap2: "capacity s2 = None" by simp
  from node.IH(1) [of s] c1 node.prems
  have k1: "cache_keys s1 = cache_keys s \<union> ?R1"
    and m1: "misses s1 = misses s + card (?R1 - cache_keys s)"
    and cl1: "keys_closed s1" by simp_all
  from node.IH(2) [of s1] c2 cap1 cl1
  have k2: "cache_keys s2 = cache_keys s1 \<union> ?R2"
    and m2: "misses s2 = misses s1 + card (?R2 - cache_keys s1)"
    and cl2: "keys_closed s2" by simp_all
  let ?s' = "miss_insert ?k (r1 + 1 + r2) s2"
  from cap2 have e: "cache_keys ?s' = insert ?k (cache_keys s2)"
    by (simp add: cache_keys_miss_insert_unbounded)
  from node.hyps have R: "reachable_keys n a b c = insert ?k (?R1 \<union> ?R2)"
    by (intro reachable_keys_pos)
  from node.hyps have notin: "?k \<notin> cache_keys s" by (simp add: lookup_None_iff)
  have notR: "?k \<notin> ?R1" "?k \<notin> ?R2" by (rule reachable_keys_not_parent)+
  have keys: "cache_keys ?s' = cache_keys s \<union> reachable_keys n a b c"
    unfolding e k2 k1 R by blast
  have "reachable_keys n a b c \<subseteq> cache_keys ?s'"
    unfolding keys by blast
  with cl2 e have closed: "keys_closed ?s'" by (rule keys_closed_insert)
  have fin: "finite ?R1" "finite ?R2" by (rule finite_reachable_keys)+
  have "card (reachable_keys n a b c - cache_keys s)
      = Suc (card (?R1 - cache_keys s) + card (?R2 - (cache_keys s \<union> ?R1)))"
    unfolding R using fin notin notR by (rule card_reach_split)
  then have "misses ?s' = misses s + card (reachable_keys n a b c - cache_keys s)"
    using m1 m2 by (simp add: k1)
  with keys closed node.hyps show ?case by (simp add: memo_miss_pos c1 c2)
qed

subsection \<open>The number of keys a call reaches\<close>

lemma pole_rotations_bca: "pole_rotations b c a = pole_rotations a b c"
  unfolding pole_rotations_def by blast

lemma pole_rotations_bac: "pole_rotations b a c = pole_rotations a c b"
  unfolding pole_rotations_def by blast

lemma pole_rotations_self: "(a, b, c) \<in> pole_rotations a b c"
  unfolding pole_rotations_def by blast

lemma card_pole_rotations: "card (pole_rotations a b c) \<le> 3"
proof -
  have "pole_rotations a b c = set [(a, b, c), (c, a, b), (b, c, a)]"
    unfolding pole_rotations_def by simp
  then show ?thesis using card_length [of "[(a, b, c), (c, a, b), (b, c, a)]"] by simp
qed

lemma finite_pole_rotations [simp]: "finite (pole_rotations a b c)"
  unfolding pole_rotations_def by blast

lemma key_band_second: "key_band n b a c = key_band n a c b"
  unfolding key_band_def pole_rotations_bac [of b a c] pole_rotations_bca [of b c a] ..

lemma key_band_third: "key_band n b c a = key_band n a b c"
  unfolding key_band_def pole_rotations_bac [of b a c] pole_rotations_bca [of b c a] ..

lemma card_insert_Suc_le: "finite A \<Longrightarrow> card (insert x A) \<le> Suc (card A)"
  by (simp add: card_insert_if)

lemma key_band_step:
  assumes "0 < n"
  shows "insert (n - 1, a, c, b) (key_band (n - 1) a c b) \<subseteq> key_band n a b c"
proof
  fix k
  assume k: "k \<in> insert (n - 1, a, c, b) (key_band (n - 1) a c b)"
  obtain j p where kp: "k = (j, p)" by (cases k)
  show "k \<in> key_band n a b c"
  proof (cases "k = (n - 1, a, c, b)")
    case True
    have "\<not> even (n - (n - 1))" by simp
    with assms True show ?thesis
      unfolding key_band_def by (simp add: pole_rotations_self)
  next
    case False
    with k kp have j: "0 \<le> j" "j < n - 1"
      and p: "p \<in> (if even (n - 1 - j) then pole_rotations a c b else pole_rotations a b c)"
      unfolding key_band_def by auto
    have "even (n - j) \<longleftrightarrow> \<not> even (n - 1 - j)" by presburger
    with j p kp show ?thesis unfolding key_band_def by (auto split: if_splits)
  qed
qed

lemma finite_key_band: "finite (key_band n a b c)"
  unfolding key_band_def by (rule finite_SigmaI) simp_all

lemma card_key_band: "card (key_band n a b c) \<le> 3 * nat n"
proof -
  let ?B = "\<lambda>j. if even (n - j) then pole_rotations a b c else pole_rotations a c b"
  have "card (key_band n a b c) = (\<Sum>j\<in>{0..<n}. card (?B j))"
    unfolding key_band_def by (rule card_SigmaI) simp_all
  also have "\<dots> \<le> (\<Sum>j\<in>{0..<n}. 3)"
    by (rule sum_mono) (simp add: card_pole_rotations)
  also have "\<dots> = 3 * nat n" by simp
  finally show ?thesis .
qed

lemma insert_Un_subset: "A \<subseteq> C \<Longrightarrow> B \<subseteq> C \<Longrightarrow> insert x (A \<union> B) \<subseteq> insert x C"
  by blast

lemma reachable_keys_band:
  "reachable_keys n a b c \<subseteq> insert (n, a, b, c) (key_band n a b c)"
proof (induction n a b c rule: reachable_keys.induct)
  case (1 n a b c)
  show ?case
  proof (cases "0 < n")
    case True
    have r1: "reachable_keys (n - 1) a c b \<subseteq> key_band n a b c"
      using "1.IH"(1) [OF True] key_band_step [OF True] by (rule subset_trans)
    have "reachable_keys (n - 1) b a c \<subseteq> key_band n b c a"
      using "1.IH"(2) [OF True] key_band_step [OF True] by (rule subset_trans)
    moreover have "key_band n b c a = key_band n a b c" by (rule key_band_third)
    ultimately have r2: "reachable_keys (n - 1) b a c \<subseteq> key_band n a b c"
      by (rule subst [where P = "\<lambda>K. reachable_keys (n - 1) b a c \<subseteq> K", rotated])
    from r1 r2 show ?thesis
      unfolding reachable_keys_pos [OF True] by (rule insert_Un_subset)
  next
    case False
    then have le: "n \<le> 0" by simp
    show ?thesis unfolding reachable_keys_nonpos [OF le] by simp
  qed
qed

lemma card_reachable_keys_le: "card (reachable_keys n a b c) \<le> 3 * nat n + 1"
proof -
  have "card (reachable_keys n a b c) \<le> card (insert (n, a, b, c) (key_band n a b c))"
    by (rule card_mono) (simp_all add: finite_key_band reachable_keys_band)
  also have "\<dots> \<le> Suc (card (key_band n a b c))"
    by (rule card_insert_Suc_le) (rule finite_key_band)
  finally show ?thesis using card_key_band [of n a b c] by simp
qed

lemma insert_Un_subset2:
  "A \<subseteq> insert y K \<Longrightarrow> B \<subseteq> insert z K \<Longrightarrow>
     insert x (A \<union> B) \<subseteq> insert x (insert y (insert z K))"
  by blast

lemma finite_insert3: "finite K \<Longrightarrow> finite (insert x (insert y (insert z K)))"
  by simp

lemma card_reachable_keys_pos:
  assumes "0 < n"
  shows "card (reachable_keys n a b c) \<le> 3 * nat n"
proof -
  let ?K = "key_band (n - 1) a c b"
  let ?S = "insert (n, a, b, c) (insert (n - 1, a, c, b) (insert (n - 1, b, a, c) ?K))"
  have "reachable_keys (n - 1) a c b \<subseteq> insert (n - 1, a, c, b) ?K"
    by (rule reachable_keys_band)
  moreover have "key_band (n - 1) b a c = ?K" by (rule key_band_second)
  with reachable_keys_band [of "n - 1" b a c]
  have "reachable_keys (n - 1) b a c \<subseteq> insert (n - 1, b, a, c) ?K"
    by (rule subst [where P = "\<lambda>K. reachable_keys (n - 1) b a c \<subseteq> insert (n - 1, b, a, c) K", rotated])
  ultimately have sub: "reachable_keys n a b c \<subseteq> ?S"
    unfolding reachable_keys_pos [OF assms] by (rule insert_Un_subset2)
  have fin: "finite ?S" using finite_key_band [of "n - 1" a c b] by (rule finite_insert3)
  have f0: "finite ?K" by (rule finite_key_band)
  then have f1: "finite (insert (n - 1, b, a, c) ?K)" by (rule finite.insertI)
  then have f2: "finite (insert (n - 1, a, c, b) (insert (n - 1, b, a, c) ?K))"
    by (rule finite.insertI)
  have "card ?S \<le> 3 + card ?K"
    using card_insert_Suc_le [OF f0, of "(n - 1, b, a, c)"]
      card_insert_Suc_le [OF f1, of "(n - 1, a, c, b)"]
      card_insert_Suc_le [OF f2, of "(n, a, b, c)"] by linarith
  with card_key_band [of "n - 1" a c b] assms have "card ?S \<le> 3 * nat n" by simp
  with card_mono [OF fin sub] show ?thesis by simp
qed

subsection \<open>Eviction of an entry by later calls\<close>

lemma entry_depth_counters [simp]:
  "entry_depth k (c\<lparr>hits := h\<rparr>) = entry_depth k c"
  "entry_depth k (c\<lparr>misses := m\<rparr>) = entry_depth k c"
  by (simp_all add: entry_depth_def)

lemma length_takeWhile_present:
  "x \<in> set xs \<Longrightarrow> \<not> P x \<Longrightarrow> length (takeWhile P xs) < length xs"
  by (induction xs) auto

lemma entry_depth_less: "k \<in> cache_keys c \<Longrightarrow> entry_depth k c < size_cache c"
proof -
  assume "k \<in> cache_keys c"
  then obtain e where "e \<in> set (entries c)" and "\<not> fst e \<noteq> k"
    by (auto simp: cache_keys_def)
  then show ?thesis unfolding entry_depth_def size_cache_def
    by (rule length_takeWhile_present)
qed

lemma takeWhile_filter_other:
  "distinct (map fst xs) \<Longrightarrow>
     length (takeWhile (\<lambda>e. fst e \<noteq> k) xs)
       \<le> Suc (length (takeWhile (\<lambda>e. fst e \<noteq> k) (filter (\<lambda>e. fst e \<noteq> k') xs)))"
proof (induction xs)
  case Nil
  then show ?case by simp
next
  case (Cons x xs)
  show ?case
  proof (cases "fst x = k'")
    case True
    with Cons.prems have "k' \<notin> fst ` set xs" by auto
    then have "filter (\<lambda>e. fst e \<noteq> k') xs = xs" by (auto simp: filter_id_conv)
    with True show ?thesis by simp
  next
    case False
    with Cons show ?thesis by simp
  qed
qed

lemma entry_depth_store_mru:
  "distinct_keys c \<Longrightarrow> k' \<noteq> k \<Longrightarrow> entry_depth k c \<le> entry_depth k (store_mru k' r c)"
  using takeWhile_filter_other [of "entries c" k k']
  by (simp add: entry_depth_def store_mru_def distinct_keys_def)

lemma entry_depth_store_mru_new:
  "k' \<notin> cache_keys c \<Longrightarrow> k' \<noteq> k \<Longrightarrow>
     entry_depth k (store_mru k' r c) = Suc (entry_depth k c)"
proof -
  assume "k' \<notin> cache_keys c" and "k' \<noteq> k"
  then have "filter (\<lambda>e. fst e \<noteq> k') (entries c) = entries c"
    by (auto simp: filter_id_conv cache_keys_def)
  with \<open>k' \<noteq> k\<close> show ?thesis by (simp add: entry_depth_def store_mru_def)
qed

lemma takeWhile_butlast_present:
  "\<exists>x \<in> set (butlast xs). \<not> P x \<Longrightarrow> takeWhile P (butlast xs) = takeWhile P xs"
proof (induction xs)
  case Nil
  then show ?case by simp
next
  case (Cons x xs)
  then show ?case by (cases "xs = []") auto
qed

lemma entry_depth_evict_lru:
  assumes "k \<in> cache_keys (evict_lru c)"
  shows "entry_depth k (evict_lru c) = entry_depth k c"
proof -
  from assms have "\<exists>x \<in> set (butlast (entries c)). \<not> fst x \<noteq> k"
    by (auto simp: cache_keys_def evict_lru_def)
  then have "takeWhile (\<lambda>e. fst e \<noteq> k) (butlast (entries c))
      = takeWhile (\<lambda>e. fst e \<noteq> k) (entries c)"
    by (rule takeWhile_butlast_present)
  then show ?thesis by (simp add: entry_depth_def evict_lru_def)
qed

lemma entry_depth_miss_insert:
  assumes "k' \<notin> cache_keys c" and "k' \<noteq> k" and "k \<in> cache_keys (miss_insert k' r c)"
  shows "entry_depth k (miss_insert k' r c) = Suc (entry_depth k c)"
proof -
  let ?c = "store_mru k' r (c\<lparr>misses := misses c + 1\<rparr>)"
  from assms(1,2) have d: "entry_depth k ?c = Suc (entry_depth k c)"
    using entry_depth_store_mru_new [of k' "c\<lparr>misses := misses c + 1\<rparr>" k r] by simp
  show ?thesis
  proof (cases "over_capacity ?c")
    case True
    then have e: "miss_insert k' r c = evict_lru ?c" by (simp add: miss_insert_def Let_def)
    with assms(3) have "k \<in> cache_keys (evict_lru ?c)" by simp
    then have "entry_depth k (evict_lru ?c) = entry_depth k ?c" by (rule entry_depth_evict_lru)
    with e d show ?thesis by simp
  next
    case False
    then have "miss_insert k' r c = ?c" by (simp add: miss_insert_def Let_def)
    with d show ?thesis by simp
  qed
qed

lemma memo_entry_depth:
  assumes "k0 \<notin> reachable_keys n a b c" and "distinct_keys s"
    and "k0 \<in> cache_keys (snd (hanoi_count_memo n a b c s))"
  shows "k0 \<in> cache_keys s
    \<and> entry_depth k0 s + (misses (snd (hanoi_count_memo n a b c s)) - misses s)
        \<le> entry_depth k0 (snd (hanoi_count_memo n a b c s))"
  using assms
proof (induction n a b c s rule: memo_induct)
  case (hit n a b c s r)
  let ?k = "(n, a, b, c)"
  from hit.prems(1) reachable_keys_self [of n a b c] have ne: "?k \<noteq> k0" by auto
  from hit.hyps have s': "snd (hanoi_count_memo n a b c s) = (store_mru ?k r s)\<lparr>hits := hits s + 1\<rparr>"
    by (simp add: memo_hit)
  from hit.prems(3) ne have "k0 \<in> cache_keys s" unfolding s' by auto
  moreover from hit.prems(2) ne have "entry_depth k0 s \<le> entry_depth k0 (store_mru ?k r s)"
    by (rule entry_depth_store_mru)
  ultimately show ?case unfolding s' by simp
next
  case (leaf n a b c s)
  let ?k = "(n, a, b, c)"
  from leaf.prems(1) reachable_keys_self [of n a b c] have ne: "?k \<noteq> k0" by auto
  from leaf.hyps have s': "snd (hanoi_count_memo n a b c s) = miss_insert ?k 0 s"
    by (simp add: memo_miss_nonpos)
  from leaf.hyps have notin: "?k \<notin> cache_keys s" by (simp add: lookup_None_iff)
  from leaf.prems(3) cache_keys_miss_insert [of ?k 0 s] ne have "k0 \<in> cache_keys s"
    unfolding s' by auto
  moreover from notin ne leaf.prems(3)
  have "entry_depth k0 (miss_insert ?k 0 s) = Suc (entry_depth k0 s)"
    unfolding s' by (rule entry_depth_miss_insert)
  ultimately show ?case unfolding s' by simp
next
  case (node n a b c s)
  let ?k = "(n, a, b, c)"
  obtain r1 s1 where c1: "hanoi_count_memo (n - 1) a c b s = (r1, s1)" by fastforce
  obtain r2 s2 where c2: "hanoi_count_memo (n - 1) b a c s1 = (r2, s2)" by fastforce
  let ?s' = "miss_insert ?k (r1 + 1 + r2) s2"
  from node.hyps have s': "snd (hanoi_count_memo n a b c s) = ?s'"
    by (simp add: memo_miss_pos c1 c2)
  have R: "reachable_keys n a b c
      = insert ?k (reachable_keys (n - 1) a c b \<union> reachable_keys (n - 1) b a c)"
    using node.hyps(2) by (rule reachable_keys_pos)
  from node.prems(1) have ne: "?k \<noteq> k0" and n1: "k0 \<notin> reachable_keys (n - 1) a c b"
    and n2: "k0 \<notin> reachable_keys (n - 1) b a c" unfolding R by auto
  from memo_distinct_keys [OF node.prems(2), of "n - 1" a c b] c1 have d1: "distinct_keys s1"
    by simp
  from memo_cache_keys [of "n - 1" a c b s] c1
  have k1: "cache_keys s1 \<subseteq> cache_keys s \<union> reachable_keys (n - 1) a c b" by simp
  from memo_cache_keys [of "n - 1" b a c s1] c2
  have k2: "cache_keys s2 \<subseteq> cache_keys s1 \<union> reachable_keys (n - 1) b a c" by simp
  from node.hyps have "?k \<notin> cache_keys s" by (simp add: lookup_None_iff)
  with k1 k2 reachable_keys_not_parent [of n a b c a c b]
    reachable_keys_not_parent [of n a b c b a c]
  have notin: "?k \<notin> cache_keys s2" by blast
  from node.prems(3) cache_keys_miss_insert [of ?k "r1 + 1 + r2" s2] ne
  have in2: "k0 \<in> cache_keys s2" unfolding s' by auto
  from node.IH(2) [of s1] n2 d1 in2 c2
  have in1: "k0 \<in> cache_keys s1"
    and e2: "entry_depth k0 s1 + (misses s2 - misses s1) \<le> entry_depth k0 s2" by simp_all
  from node.IH(1) [of s] n1 node.prems(2) in1 c1
  have in0: "k0 \<in> cache_keys s"
    and e1: "entry_depth k0 s + (misses s1 - misses s) \<le> entry_depth k0 s1" by simp_all
  from notin ne node.prems(3)
  have e3: "entry_depth k0 ?s' = Suc (entry_depth k0 s2)"
    unfolding s' by (rule entry_depth_miss_insert)
  from memo_counters [of s "n - 1" a c b] c1 have m1: "misses s \<le> misses s1" by simp
  from memo_counters [of s1 "n - 1" b a c] c2 have m2: "misses s1 \<le> misses s2" by simp
  from in0 e1 e2 e3 m1 m2 show ?case unfolding s' by simp
qed

lemma memo_misses_lower:
  assumes "reachable_keys n a b c \<inter> cache_keys s = {}" and "0 \<le> n"
  shows "misses s + nat n + 1 \<le> misses (snd (hanoi_count_memo n a b c s))"
  using assms
proof (induction n a b c s rule: memo_induct)
  case (hit n a b c s r)
  then have "(n, a, b, c) \<in> cache_keys s" by (auto dest: lookup_Some_key)
  with hit.prems(1) reachable_keys_self [of n a b c] show ?case by blast
next
  case (leaf n a b c s)
  then show ?case by (simp add: memo_miss_nonpos)
next
  case (node n a b c s)
  obtain r1 s1 where c1: "hanoi_count_memo (n - 1) a c b s = (r1, s1)" by fastforce
  obtain r2 s2 where c2: "hanoi_count_memo (n - 1) b a c s1 = (r2, s2)" by fastforce
  have R: "reachable_keys n a b c
      = insert (n, a, b, c) (reachable_keys (n - 1) a c b \<union> reachable_keys (n - 1) b a c)"
    using node.hyps(2) by (rule reachable_keys_pos)
  from node.prems(1) have "reachable_keys (n - 1) a c b \<inter> cache_keys s = {}"
    unfolding R by blast
  with node.IH(1) [of s] node.hyps c1 have "misses s + nat (n - 1) + 1 \<le> misses s1" by simp
  moreover from memo_counters [of s1 "n - 1" b a c] c2 have "misses s1 \<le> misses s2" by simp
  ultimately show ?case using node.hyps by (simp add: memo_miss_pos c1 c2)
qed

text \<open>Enough misses on other keys evict an entry.\<close>

lemma memo_evicts:
  assumes cap: "capacity s = Some m" and w: "within_capacity s" and d: "distinct_keys s"
    and k0: "k0 \<notin> reachable_keys n a b c"
    and fresh: "reachable_keys n a b c \<inter> cache_keys s = {}"
    and n: "0 \<le> n" "m \<le> nat n + 1"
  shows "k0 \<notin> cache_keys (snd (hanoi_count_memo n a b c s))"
proof
  let ?s' = "snd (hanoi_count_memo n a b c s)"
  assume in': "k0 \<in> cache_keys ?s'"
  from memo_entry_depth [OF k0 d in']
  have "entry_depth k0 s + (misses ?s' - misses s) \<le> entry_depth k0 ?s'" by simp
  moreover from memo_misses_lower [OF fresh n(1)] have "nat n + 1 \<le> misses ?s' - misses s"
    by simp
  moreover from in' have "entry_depth k0 ?s' < size_cache ?s'" by (rule entry_depth_less)
  moreover from memo_within_capacity [OF w, of n a b c] memo_capacity [of n a b c s] cap
  have "size_cache ?s' \<le> m" by (simp add: within_capacity_def)
  ultimately show False using n(2) by simp
qed

lemma reachable_keys_poles:
  "k \<in> reachable_keys n a b c \<Longrightarrow> fst (snd k) \<in> {a, b, c}"
proof (induction n a b c rule: reachable_keys.induct)
  case (1 n a b c)
  show ?case
  proof (cases "0 < n")
    case True
    from "1.prems" consider "k = (n, a, b, c)" | "k \<in> reachable_keys (n - 1) a c b"
      | "k \<in> reachable_keys (n - 1) b a c"
      unfolding reachable_keys_pos [OF True] by blast
    then show ?thesis
    proof cases
      case 1
      then show ?thesis by simp
    next
      case 2
      with "1.IH"(1) [OF True] have "fst (snd k) \<in> {a, c, b}" by blast
      then show ?thesis by blast
    next
      case 3
      with "1.IH"(2) [OF True] have "fst (snd k) \<in> {b, a, c}" by blast
      then show ?thesis by blast
    qed
  next
    case False
    then have "n \<le> 0" by simp
    with "1.prems" show ?thesis unfolding reachable_keys_nonpos [OF \<open>n \<le> 0\<close>] by simp
  qed
qed

lemma memo_unbounded_keeps:
  "capacity s = None \<Longrightarrow> cache_keys s \<subseteq> cache_keys (snd (hanoi_count_memo n a b c s))"
proof (induction n a b c s rule: memo_induct)
  case (hit n a b c s r)
  then show ?case by (auto simp: memo_hit)
next
  case (leaf n a b c s)
  then show ?case by (auto simp: memo_miss_nonpos cache_keys_miss_insert_unbounded)
next
  case (node n a b c s)
  obtain r1 s1 where c1: "hanoi_count_memo (n - 1) a c b s = (r1, s1)" by fastforce
  obtain r2 s2 where c2: "hanoi_count_memo (n - 1) b a c s1 = (r2, s2)" by fastforce
  from memo_capacity [of "n - 1" a c b s] c1 node.prems have cap1: "capacity s1 = None" by simp
  from memo_capacity [of "n - 1" b a c s1] c2 cap1 have cap2: "capacity s2 = None" by simp
  from node.IH(1) [of s] node.prems c1 have "cache_keys s \<subseteq> cache_keys s1" by simp
  moreover from node.IH(2) [of s1] cap1 c2 have "cache_keys s1 \<subseteq> cache_keys s2" by simp
  ultimately have "cache_keys s \<subseteq> cache_keys s2" by (rule subset_trans)
  with node.hyps cap2 show ?case
    by (auto simp: memo_miss_pos c1 c2 cache_keys_miss_insert_unbounded)
qed

lemma valid_cache_lookup_key:
  "valid_cache s \<Longrightarrow> cache_lookup s (n, a, b, c) = Some v \<Longrightarrow> v = hanoi_count n a b c"
  by (drule (1) valid_cache_lookup) (simp add: hanoi_count_key_def)

lemma lookup_present: "k \<in> cache_keys s \<Longrightarrow> \<exists>v. cache_lookup s k = Some v"
  using lookup_None_iff [of s k] by (cases "cache_lookup s k") auto

lemma new_cache_facts [simp]:
  "entries (new_cache cap) = []" "hits (new_cache cap) = 0" "misses (new_cache cap) = 0"
  "cache_keys (new_cache cap) = {}" "distinct_keys (new_cache cap)"
  "within_capacity (new_cache cap)" "keys_closed (new_cache cap)"
  "capacity (new_cache None) = None" "capacity (new_cache (Some (Suc m))) = Some (Suc m)"
  by (simp_all add: new_cache_def cache_keys_def distinct_keys_def within_capacity_def
      size_cache_def keys_closed_def split: option.splits)

lemma size_cache_card: "distinct_keys s \<Longrightarrow> size_cache s = card (cache_keys s)"
proof -
  assume "distinct_keys s"
  then have "card (set (map fst (entries s))) = length (map fst (entries s))"
    unfolding distinct_keys_def by (rule distinct_card)
  then show ?thesis by (simp add: size_cache_def cache_keys_def)
qed

lemma memo_cold_unbounded:
  "misses (snd (hanoi_count_memo n a b c (new_cache None))) = card (reachable_keys n a b c)"
  "size_cache (snd (hanoi_count_memo n a b c (new_cache None))) = card (reachable_keys n a b c)"
proof -
  let ?s = "new_cache None :: ('a key, int) cache"
  from memo_unbounded [of ?s n a b c]
  have k: "cache_keys (snd (hanoi_count_memo n a b c ?s)) = reachable_keys n a b c"
    and m: "misses (snd (hanoi_count_memo n a b c ?s)) = card (reachable_keys n a b c)"
    by simp_all
  show "misses (snd (hanoi_count_memo n a b c ?s)) = card (reachable_keys n a b c)" by (rule m)
  have "distinct_keys (snd (hanoi_count_memo n a b c ?s))" by (rule memo_distinct_keys) simp
  then show "size_cache (snd (hanoi_count_memo n a b c ?s)) = card (reachable_keys n a b c)"
    unfolding k [symmetric] by (rule size_cache_card)
qed

section \<open>The claims about the cache and the memoized function\<close>

text \<open>
  C2. In every cache state whose entries hold results of the plain function (every state
  that calls of the memoized function produce from a new cache), the memoized
  \<open>hanoi_count\<close> returns the value of the plain \<open>hanoi_count\<close>, for every integer \<open>n\<close> and
  all poles, and leaves such a state. A call whose tuple is in the cache returns the
  stored result without invoking the body: the counter of invocations is unchanged and
  one hit is counted. In particular a call repeated immediately is such a call, unless
  the capacity is zero. A call whose tuple is not in the cache, be it for the first time
  or after its entry was evicted, invokes the body.
\<close>

theorem memoized_agrees:
  "valid_cache s \<Longrightarrow>
     fst (hanoi_count_memo n a b c s) = hanoi_count n a b c
     \<and> valid_cache (snd (hanoi_count_memo n a b c s))
     \<and> (\<forall>r. cache_lookup s (n, a, b, c) = Some r \<longrightarrow>
           fst (hanoi_count_memo n a b c s) = r
           \<and> misses (snd (hanoi_count_memo n a b c s)) = misses s
           \<and> hits (snd (hanoi_count_memo n a b c s)) = hits s + 1)
     \<and> (capacity s \<noteq> Some 0 \<longrightarrow>
           fst (hanoi_count_memo n a b c (snd (hanoi_count_memo n a b c s)))
             = fst (hanoi_count_memo n a b c s)
           \<and> misses (snd (hanoi_count_memo n a b c (snd (hanoi_count_memo n a b c s))))
             = misses (snd (hanoi_count_memo n a b c s)))
     \<and> (cache_lookup s (n, a, b, c) = None \<longrightarrow>
           misses s < misses (snd (hanoi_count_memo n a b c s)))"
proof (intro conjI allI impI)
  assume v: "valid_cache s"
  from memo_valid [OF v, of n a b c]
  show "fst (hanoi_count_memo n a b c s) = hanoi_count n a b c"
    and "valid_cache (snd (hanoi_count_memo n a b c s))" by simp_all
  show "misses s < misses (snd (hanoi_count_memo n a b c s))"
    if "cache_lookup s (n, a, b, c) = None" using that by (rule memo_miss_invokes)
next
  fix r
  assume "cache_lookup s (n, a, b, c) = Some r"
  then have e: "hanoi_count_memo n a b c s
      = (r, (store_mru (n, a, b, c) r s)\<lparr>hits := hits s + 1\<rparr>)" by (rule memo_hit)
  show "fst (hanoi_count_memo n a b c s) = r"
    and "misses (snd (hanoi_count_memo n a b c s)) = misses s"
    and "hits (snd (hanoi_count_memo n a b c s)) = hits s + 1"
    unfolding e by simp_all
next
  let ?s1 = "snd (hanoi_count_memo n a b c s)"
  assume "capacity s \<noteq> Some 0"
  then have "cache_lookup ?s1 (n, a, b, c) = Some (fst (hanoi_count_memo n a b c s))"
    by (rule memo_caches_key)
  then have e: "hanoi_count_memo n a b c ?s1
      = (fst (hanoi_count_memo n a b c s),
         (store_mru (n, a, b, c) (fst (hanoi_count_memo n a b c s)) ?s1)\<lparr>hits := hits ?s1 + 1\<rparr>)"
    by (rule memo_hit)
  show "fst (hanoi_count_memo n a b c ?s1) = fst (hanoi_count_memo n a b c s)"
    and "misses (snd (hanoi_count_memo n a b c ?s1)) = misses ?s1"
    unfolding e by simp_all
qed

theorem memoized_agrees_witness:
  "valid_cache (new_cache lru_cache_maxsize :: (string key, int) cache)
   \<and> fst (hanoi_count_memo 3 ''A'' ''B'' ''C'' (new_cache lru_cache_maxsize)) = 7
   \<and> misses (snd (hanoi_count_memo 3 ''A'' ''B'' ''C''
        (snd (hanoi_count_memo 3 ''A'' ''B'' ''C'' (new_cache lru_cache_maxsize)))))
      = misses (snd (hanoi_count_memo 3 ''A'' ''B'' ''C'' (new_cache lru_cache_maxsize)))"
  using memoized_agrees [of "new_cache lru_cache_maxsize" 3 "''A''" "''B''" "''C''"]
  by (simp add: hanoi_count_pos hanoi_count_nonpos new_cache_def lru_cache_maxsize_def
      valid_cache_def)

text \<open>
  The claim as the specification states it, that every repeated call with the same tuple
  returns the stored result without invoking the body again, fails once the entry has
  been evicted. With the capacity 128 of \<^verbatim>\<open>@lru_cache()\<close>: after
  \<^verbatim>\<open>hanoi_count(0, "X", "Y", "Z")\<close>, the call \<^verbatim>\<open>hanoi_count(127, "A", "B", "C")\<close> misses at least
  128 times on other keys, which evicts the first entry, and the repeated call
  \<^verbatim>\<open>hanoi_count(0, "X", "Y", "Z")\<close> invokes the body again.
\<close>

theorem repeated_call_after_eviction:
  "cache_lookup
     (snd (hanoi_count_memo 127 ''A'' ''B'' ''C''
        (snd (hanoi_count_memo 0 ''X'' ''Y'' ''Z'' (new_cache lru_cache_maxsize)))))
     (0, ''X'', ''Y'', ''Z'') = None
   \<and> misses (snd (hanoi_count_memo 0 ''X'' ''Y'' ''Z''
        (snd (hanoi_count_memo 127 ''A'' ''B'' ''C''
           (snd (hanoi_count_memo 0 ''X'' ''Y'' ''Z'' (new_cache lru_cache_maxsize)))))))
      = misses (snd (hanoi_count_memo 127 ''A'' ''B'' ''C''
           (snd (hanoi_count_memo 0 ''X'' ''Y'' ''Z'' (new_cache lru_cache_maxsize))))) + 1"
proof -
  let ?k0 = "(0::int, ''X'', ''Y'', ''Z'')"
  let ?s0 = "new_cache lru_cache_maxsize :: (string key, int) cache"
  let ?s1 = "snd (hanoi_count_memo 0 ''X'' ''Y'' ''Z'' ?s0)"
  let ?s2 = "snd (hanoi_count_memo 127 ''A'' ''B'' ''C'' ?s1)"
  have cap0: "capacity ?s0 = Some 128" by (simp add: new_cache_def lru_cache_maxsize_def)
  with memo_capacity [of 0 "''X''" "''Y''" "''Z''" ?s0] have cap1: "capacity ?s1 = Some 128"
    by simp
  have w1: "within_capacity ?s1" by (rule memo_within_capacity) simp
  have d1: "distinct_keys ?s1" by (rule memo_distinct_keys) simp
  have "cache_keys ?s1 \<subseteq> cache_keys ?s0 \<union> reachable_keys 0 ''X'' ''Y'' ''Z''"
    by (rule memo_cache_keys)
  then have k1: "cache_keys ?s1 \<subseteq> {?k0}" by (simp add: reachable_keys_nonpos)
  have notin: "?k0 \<notin> reachable_keys 127 ''A'' ''B'' ''C''"
    using reachable_keys_poles [of ?k0 127 "''A''" "''B''" "''C''"] by auto
  with k1 have fresh: "reachable_keys 127 ''A'' ''B'' ''C'' \<inter> cache_keys ?s1 = {}" by blast
  have "?k0 \<notin> cache_keys ?s2"
    using cap1 w1 d1 notin fresh by (rule memo_evicts) simp_all
  then have none: "cache_lookup ?s2 ?k0 = None" by (simp add: lookup_None_iff)
  then have "hanoi_count_memo 0 ''X'' ''Y'' ''Z'' ?s2 = (0, miss_insert ?k0 0 ?s2)"
    by (rule memo_miss_nonpos) simp
  with none show ?thesis by simp
qed

text \<open>
  C5. With memoization keyed on the full tuple and an unbounded cache, a top-level call
  with \<open>n\<close> disks on a new cache invokes the body once for each key it reaches and leaves
  one entry for each. The number of these keys is at most \<open>3 * n\<close> for \<open>n > 0\<close> (three
  pole orders for each smaller number of disks, two for \<open>n - 1\<close>, one for \<open>n\<close>), and at
  most \<open>3 * n + 1\<close> for every \<open>n\<close>: for \<open>n \<le> 0\<close> the call itself is the one invocation.
  For 24 disks this is at most 72 invocations, against \<open>2 ^ 24 - 1\<close> additions of the
  plain function.
\<close>

theorem memoized_invocations_linear:
  "misses (snd (hanoi_count_memo n a b c (new_cache None))) = card (reachable_keys n a b c)
   \<and> size_cache (snd (hanoi_count_memo n a b c (new_cache None))) = card (reachable_keys n a b c)
   \<and> card (reachable_keys n a b c) \<le> 3 * nat n + 1
   \<and> (0 < n \<longrightarrow> card (reachable_keys n a b c) \<le> 3 * nat n)
   \<and> misses (snd (hanoi_count_memo 24 a b c (new_cache None))) \<le> 72
   \<and> (72::nat) < 2 ^ 24 - 1"
proof (intro conjI impI)
  show "misses (snd (hanoi_count_memo n a b c (new_cache None))) = card (reachable_keys n a b c)"
    by (rule memo_cold_unbounded)
  show "size_cache (snd (hanoi_count_memo n a b c (new_cache None)))
      = card (reachable_keys n a b c)"
    by (rule memo_cold_unbounded)
  show "card (reachable_keys n a b c) \<le> 3 * nat n + 1" by (rule card_reachable_keys_le)
  show "card (reachable_keys n a b c) \<le> 3 * nat n" if "0 < n"
    using that by (rule card_reachable_keys_pos)
  show "misses (snd (hanoi_count_memo 24 a b c (new_cache None))) \<le> 72"
    using card_reachable_keys_pos [of 24 a b c] by (simp add: memo_cold_unbounded)
  show "(72::nat) < 2 ^ 24 - 1" by simp
qed

theorem memoized_invocations_linear_witness:
  "(0::int) < 24
   \<and> misses (snd (hanoi_count_memo 24 ''A'' ''B'' ''C'' (new_cache None)))
      = card (reachable_keys 24 ''A'' ''B'' ''C'')
   \<and> card (reachable_keys 24 ''A'' ''B'' ''C'') \<le> 3 * nat 24
   \<and> (3 * nat 24 :: nat) < 2 ^ 24 - 1"
  using memoized_invocations_linear [of 24 "''A''" "''B''" "''C''"] by simp

text \<open>
  C6. A cache within its capacity stays within it after every operation of every
  sequence of operations (hits, insertions on a miss, evictions, \<^verbatim>\<open>clear\<close>,
  \<^verbatim>\<open>configure\<close>), and after every call of the memoized function. The insertion on a miss
  exceeds a finite capacity by at most one before the eviction runs; when the cache is
  full and the key is new, the eviction then removes exactly one entry, the last of the
  recency order, which is the least recently used one, and the size is the capacity
  again; when the insertion does not exceed the capacity nothing is evicted.
\<close>

theorem capacity_invariant:
  "(within_capacity c \<longrightarrow>
      list_all within_capacity (run_ops ops c)
      \<and> (\<forall>m. capacity c = Some m \<longrightarrow> size_cache (store_mru k r c) \<le> m + 1)
      \<and> (capacity c = Some (size_cache c) \<and> cache_lookup c k = None \<longrightarrow>
            over_capacity (store_mru k r c)
            \<and> entries (miss_insert k r c) = butlast ((k, r) # entries c)
            \<and> (entries c \<noteq> [] \<longrightarrow> entries (miss_insert k r c) = (k, r) # butlast (entries c))
            \<and> size_cache (miss_insert k r c) = size_cache c)
      \<and> (\<not> over_capacity (store_mru k r c) \<longrightarrow>
            entries (miss_insert k r c) = entries (store_mru k r c)))
   \<and> (within_capacity s \<longrightarrow> within_capacity (snd (hanoi_count_memo n a b p s)))"
proof (intro conjI allI impI)
  assume w: "within_capacity c"
  then show "list_all within_capacity (run_ops ops c)" by (rule within_capacity_run_ops)
  show "size_cache (store_mru k r c) \<le> m + 1" if "capacity c = Some m" for m
    using size_store_mru_le [of k r c] w that by (simp add: within_capacity_def)
  show "entries (miss_insert k r c) = entries (store_mru k r c)"
    if "\<not> over_capacity (store_mru k r c)" using that by (rule miss_insert_room)
  assume a: "capacity c = Some (size_cache c) \<and> cache_lookup c k = None"
  then show "over_capacity (store_mru k r c)"
    using store_mru_absent [of c k r]
    by (simp add: over_capacity_def size_cache_def store_mru_def)
  from a show e: "entries (miss_insert k r c) = butlast ((k, r) # entries c)"
    by (simp add: miss_insert_full)
  show "size_cache (miss_insert k r c) = size_cache c"
    unfolding size_cache_def e by simp
  show "entries (miss_insert k r c) = (k, r) # butlast (entries c)" if "entries c \<noteq> []"
    unfolding e using that by simp
next
  assume "within_capacity s"
  then show "within_capacity (snd (hanoi_count_memo n a b p s))"
    by (rule memo_within_capacity)
qed

theorem capacity_invariant_witness:
  "within_capacity \<lparr>entries = [(2::nat, ''b''), (1, ''a'')], capacity = Some 2, hits = 0, misses = 2\<rparr>
   \<and> list_all within_capacity
       (run_ops [Get 1 ''a'', Get 3 ''c'', Configure (Some 1), Clear]
          \<lparr>entries = [(2::nat, ''b''), (1, ''a'')], capacity = Some 2, hits = 0, misses = 2\<rparr>)
   \<and> capacity \<lparr>entries = [(2::nat, ''b''), (1, ''a'')], capacity = Some 2, hits = 0, misses = 2\<rparr>
       = Some (size_cache
           \<lparr>entries = [(2::nat, ''b''), (1, ''a'')], capacity = Some 2, hits = 0, misses = 2\<rparr>)
   \<and> cache_lookup
        \<lparr>entries = [(2::nat, ''b''), (1, ''a'')], capacity = Some 2, hits = 0, misses = 2\<rparr> 3
       = None
   \<and> entries (miss_insert 3 ''c''
        \<lparr>entries = [(2::nat, ''b''), (1, ''a'')], capacity = Some 2, hits = 0, misses = 2\<rparr>)
       = [(3, ''c''), (2, ''b'')]
   \<and> within_capacity (new_cache lru_cache_maxsize :: (string key, int) cache)
   \<and> within_capacity (snd (hanoi_count_memo 3 ''A'' ''B'' ''C'' (new_cache lru_cache_maxsize)))"
proof -
  let ?c = "\<lparr>entries = [(2::nat, ''b''), (1, ''a'')], capacity = Some 2, hits = 0, misses = 2\<rparr>"
  have w1: "within_capacity ?c" by (simp add: within_capacity_def size_cache_def)
  have full: "capacity ?c = Some (size_cache ?c)" by (simp add: size_cache_def)
  have new: "cache_lookup ?c 3 = None" by (simp add: cache_lookup_def)
  have ne: "entries ?c \<noteq> []" by simp
  have w2: "within_capacity (new_cache lru_cache_maxsize :: (string key, int) cache)"
    by (rule new_cache_facts)
  from capacity_invariant [of ?c "[Get 1 ''a'', Get 3 ''c'', Configure (Some 1), Clear]"
      3 "''c''" "new_cache lru_cache_maxsize :: (string key, int) cache" 3 "''A''" "''B''" "''C''"]
    w1 w2 full new ne
  have "list_all within_capacity (run_ops [Get 1 ''a'', Get 3 ''c'', Configure (Some 1), Clear] ?c)"
    and "entries (miss_insert 3 ''c'' ?c) = (3, ''c'') # butlast (entries ?c)"
    and "within_capacity (snd (hanoi_count_memo 3 ''A'' ''B'' ''C'' (new_cache lru_cache_maxsize)))"
    by blast+
  with w1 w2 full new show ?thesis by simp
qed

text \<open>The states of a longer sequence on a cache of capacity 2, one after each
  operation.\<close>

lemma capacity_example_states:
  "map entries
     (run_ops [Get (1::nat) ''a'', Get 2 ''b'', Get 1 ''a'', Get 3 ''c'', Configure (Some 1), Clear]
        (new_cache (Some 2)))
   = [[(1, ''a'')], [(2, ''b''), (1, ''a'')], [(1, ''a''), (2, ''b'')], [(3, ''c''), (1, ''a'')],
      [(3, ''c'')], []]"
  by (simp add: new_cache_def get_or_compute_def cache_lookup_def store_mru_def miss_insert_def
      Let_def over_capacity_def evict_lru_def size_cache_def configure_def clear_def shrink.simps)

text \<open>
  C7. The key of a call is the tuple of its four arguments. Let two calls differ in at
  least one argument, the first made in a cache state with valid entries and one entry
  for each key, the second after it. Each returns the plain function's value for its own
  arguments. If the second tuple has no entry of its own after the first call, the
  second call invokes the body, whatever is stored for the first tuple. Afterwards no
  key has two entries; the second tuple has its own entry (unless the capacity is zero);
  an entry of the first tuple, if it has not been evicted, holds the first call's
  result; and in an unbounded cache both tuples have their entries, so the cache holds
  at least two. For the cache by itself: after a computation under the first tuple has
  stored \<open>v\<close> in a new cache, a computation under the second tuple is run and its own
  result \<open>w\<close> is returned, not \<open>v\<close>.
\<close>

theorem key_includes_all_arguments:
  assumes "(n1, a1, b1, c1) \<noteq> (n2, a2, b2, c2)" and "valid_cache s" and "distinct_keys s"
  shows "fst (hanoi_count_memo n1 a1 b1 c1 s) = hanoi_count n1 a1 b1 c1
    \<and> fst (hanoi_count_memo n2 a2 b2 c2 (snd (hanoi_count_memo n1 a1 b1 c1 s)))
        = hanoi_count n2 a2 b2 c2
    \<and> distinct_keys (snd (hanoi_count_memo n2 a2 b2 c2 (snd (hanoi_count_memo n1 a1 b1 c1 s))))
    \<and> (cache_lookup (snd (hanoi_count_memo n1 a1 b1 c1 s)) (n2, a2, b2, c2) = None \<longrightarrow>
         misses (snd (hanoi_count_memo n1 a1 b1 c1 s))
           < misses (snd (hanoi_count_memo n2 a2 b2 c2 (snd (hanoi_count_memo n1 a1 b1 c1 s)))))
    \<and> (capacity s \<noteq> Some 0 \<longrightarrow>
         cache_lookup (snd (hanoi_count_memo n2 a2 b2 c2 (snd (hanoi_count_memo n1 a1 b1 c1 s))))
           (n2, a2, b2, c2) = Some (hanoi_count n2 a2 b2 c2))
    \<and> (\<forall>v. cache_lookup
               (snd (hanoi_count_memo n2 a2 b2 c2 (snd (hanoi_count_memo n1 a1 b1 c1 s))))
               (n1, a1, b1, c1) = Some v \<longrightarrow> v = hanoi_count n1 a1 b1 c1)
    \<and> (capacity s = None \<longrightarrow>
         cache_lookup (snd (hanoi_count_memo n2 a2 b2 c2 (snd (hanoi_count_memo n1 a1 b1 c1 s))))
           (n1, a1, b1, c1) = Some (hanoi_count n1 a1 b1 c1)
         \<and> 2 \<le> size_cache
               (snd (hanoi_count_memo n2 a2 b2 c2 (snd (hanoi_count_memo n1 a1 b1 c1 s)))))
    \<and> fst (get_or_compute (n2, a2, b2, c2) (\<lambda>c. (w, c))
             (snd (get_or_compute (n1, a1, b1, c1) (\<lambda>c. (v, c)) (new_cache cap)))) = w"
proof -
  let ?k1 = "(n1, a1, b1, c1)" and ?k2 = "(n2, a2, b2, c2)"
  let ?s1 = "snd (hanoi_count_memo n1 a1 b1 c1 s)"
  let ?s2 = "snd (hanoi_count_memo n2 a2 b2 c2 ?s1)"
  from memo_valid [OF assms(2), of n1 a1 b1 c1]
  have r1: "fst (hanoi_count_memo n1 a1 b1 c1 s) = hanoi_count n1 a1 b1 c1"
    and v1: "valid_cache ?s1" by simp_all
  from memo_valid [OF v1, of n2 a2 b2 c2]
  have r2: "fst (hanoi_count_memo n2 a2 b2 c2 ?s1) = hanoi_count n2 a2 b2 c2"
    and v2: "valid_cache ?s2" by simp_all
  have d1: "distinct_keys ?s1" using assms(3) by (rule memo_distinct_keys)
  then have d2: "distinct_keys ?s2" by (rule memo_distinct_keys)
  have cap1: "capacity ?s1 = capacity s" by (rule memo_capacity)
  have cap2: "capacity ?s2 = capacity s" using memo_capacity [of n2 a2 b2 c2 ?s1] cap1 by simp
  have miss: "misses ?s1 < misses ?s2" if "cache_lookup ?s1 ?k2 = None"
    using that by (rule memo_miss_invokes)
  have own2: "cache_lookup ?s2 ?k2 = Some (hanoi_count n2 a2 b2 c2)" if "capacity s \<noteq> Some 0"
    using memo_caches_key [of ?s1 n2 a2 b2 c2] that cap1 r2 by simp
  have own1: "v = hanoi_count n1 a1 b1 c1" if "cache_lookup ?s2 ?k1 = Some v" for v
    using v2 that by (rule valid_cache_lookup_key)
  have both: "cache_lookup ?s2 ?k1 = Some (hanoi_count n1 a1 b1 c1) \<and> 2 \<le> size_cache ?s2"
    if unb: "capacity s = None"
  proof
    from unb have "cache_lookup ?s1 ?k1 = Some (hanoi_count n1 a1 b1 c1)"
      using memo_caches_key [of s n1 a1 b1 c1] r1 by simp
    then have "?k1 \<in> cache_keys ?s1" by (rule lookup_Some_key)
    moreover from unb cap1 have "cache_keys ?s1 \<subseteq> cache_keys ?s2"
      by (intro memo_unbounded_keeps) simp
    ultimately have in1: "?k1 \<in> cache_keys ?s2" by blast
    then obtain v where "cache_lookup ?s2 ?k1 = Some v" by (auto dest: lookup_present)
    with own1 show "cache_lookup ?s2 ?k1 = Some (hanoi_count n1 a1 b1 c1)" by simp
    from unb own2 have "?k2 \<in> cache_keys ?s2" by (auto dest: lookup_Some_key)
    with in1 assms(1) have "{?k1, ?k2} \<subseteq> cache_keys ?s2" and "card {?k1, ?k2} = 2" by auto
    moreover have "finite (cache_keys ?s2)" by (simp add: cache_keys_def)
    ultimately have "2 \<le> card (cache_keys ?s2)" using card_mono by metis
    with d2 show "2 \<le> size_cache ?s2" by (simp add: size_cache_card)
  qed
  have other: "fst (get_or_compute ?k2 (\<lambda>c. (w, c))
      (snd (get_or_compute ?k1 (\<lambda>c. (v, c)) (new_cache cap)))) = w"
    using assms(1)
    by (auto simp: get_or_compute_def cache_lookup_def new_cache_def miss_insert_def Let_def
        store_mru_def over_capacity_def evict_lru_def size_cache_def split: option.splits)
  from r1 r2 d2 miss own2 own1 both other show ?thesis by blast
qed

theorem key_includes_all_arguments_witness:
  "(3::int, ''A'', ''B'', ''C'') \<noteq> (3, ''A'', ''C'', ''B'')
   \<and> valid_cache (new_cache lru_cache_maxsize :: (string key, int) cache)
   \<and> distinct_keys (new_cache lru_cache_maxsize :: (string key, int) cache)
   \<and> fst (hanoi_count_memo 3 ''A'' ''C'' ''B''
        (snd (hanoi_count_memo 3 ''A'' ''B'' ''C'' (new_cache lru_cache_maxsize)))) = 7
   \<and> cache_lookup
        (snd (hanoi_count_memo 3 ''A'' ''C'' ''B''
           (snd (hanoi_count_memo 3 ''A'' ''B'' ''C'' (new_cache lru_cache_maxsize)))))
        (3, ''A'', ''C'', ''B'') = Some 7
   \<and> distinct_keys
        (snd (hanoi_count_memo 3 ''A'' ''C'' ''B''
           (snd (hanoi_count_memo 3 ''A'' ''B'' ''C'' (new_cache lru_cache_maxsize)))))
   \<and> fst (get_or_compute (3::int, ''A'', ''C'', ''B'') (\<lambda>c. (20::int, c))
        (snd (get_or_compute (3::int, ''A'', ''B'', ''C'') (\<lambda>c. (10::int, c))
           (new_cache lru_cache_maxsize)))) = 20"
proof -
  let ?s = "new_cache lru_cache_maxsize :: (string key, int) cache"
  have h1: "(3::int, ''A'', ''B'', ''C'') \<noteq> (3, ''A'', ''C'', ''B'')" by simp
  have h2: "valid_cache ?s" by (rule valid_cache_new)
  have h3: "distinct_keys ?s" by (simp add: new_cache_def distinct_keys_def)
  have c: "capacity ?s \<noteq> Some 0" by (simp add: new_cache_def lru_cache_maxsize_def)
  have e: "hanoi_count 3 ''A'' ''C'' ''B'' = 7"
    by (simp add: hanoi_count_pos hanoi_count_nonpos)
  note t = key_includes_all_arguments [OF h1 h2 h3, where w = "20::int" and v = "10::int"
      and cap = lru_cache_maxsize, unfolded e]
  note t2 = t [THEN conjunct2, THEN conjunct1]
  note t3 = t [THEN conjunct2, THEN conjunct2, THEN conjunct1]
  note t5 = t [THEN conjunct2, THEN conjunct2, THEN conjunct2, THEN conjunct2, THEN conjunct1,
      THEN mp, OF c]
  note t8 = t [THEN conjunct2, THEN conjunct2, THEN conjunct2, THEN conjunct2, THEN conjunct2,
      THEN conjunct2, THEN conjunct2]
  from h1 h2 h3 t2 t5 t3 t8 show ?thesis by (intro conjI)
qed

text \<open>
  C8. On a new cache of capacity 2, for three different keys: after the insertion of
  \<open>k1\<close> and then \<open>k2\<close>, an access to \<open>k1\<close> (a hit, whose computation \<open>w\<close> is not used)
  and the insertion of \<open>k3\<close>, the key \<open>k2\<close> has been evicted and \<open>k1\<close> and \<open>k3\<close> are
  present with their results. Without the access to \<open>k1\<close> it is \<open>k1\<close> that is evicted.
\<close>

theorem lru_eviction_order:
  assumes "k1 \<noteq> k2" and "k3 \<noteq> k1" and "k3 \<noteq> k2"
  shows "map entries
           (run_ops [Get k1 v1, Get k2 v2, Get k1 w, Get k3 v3] (new_cache (Some 2)))
         = [[(k1, v1)], [(k2, v2), (k1, v1)], [(k1, v1), (k2, v2)], [(k3, v3), (k1, v1)]]
    \<and> cache_lookup
         (last (run_ops [Get k1 v1, Get k2 v2, Get k1 w, Get k3 v3] (new_cache (Some 2)))) k2
       = None
    \<and> cache_lookup
         (last (run_ops [Get k1 v1, Get k2 v2, Get k1 w, Get k3 v3] (new_cache (Some 2)))) k1
       = Some v1
    \<and> cache_lookup
         (last (run_ops [Get k1 v1, Get k2 v2, Get k1 w, Get k3 v3] (new_cache (Some 2)))) k3
       = Some v3
    \<and> map entries (run_ops [Get k1 v1, Get k2 v2, Get k3 v3] (new_cache (Some 2)))
       = [[(k1, v1)], [(k2, v2), (k1, v1)], [(k3, v3), (k2, v2)]]"
  using assms
  by (simp add: new_cache_def get_or_compute_def cache_lookup_def store_mru_def miss_insert_def
      Let_def over_capacity_def evict_lru_def size_cache_def)

theorem lru_eviction_order_witness:
  "''k1'' \<noteq> ''k2'' \<and> ''k3'' \<noteq> ''k1'' \<and> ''k3'' \<noteq> ''k2''
   \<and> map entries
        (run_ops [Get ''k1'' (1::int), Get ''k2'' 2, Get ''k1'' 10, Get ''k3'' 3]
           (new_cache (Some 2)))
      = [[(''k1'', 1)], [(''k2'', 2), (''k1'', 1)], [(''k1'', 1), (''k2'', 2)],
         [(''k3'', 3), (''k1'', 1)]]
   \<and> cache_lookup
        (last (run_ops [Get ''k1'' (1::int), Get ''k2'' 2, Get ''k1'' 10, Get ''k3'' 3]
           (new_cache (Some 2)))) ''k2''
      = None"
  using lru_eviction_order [of "''k1''" "''k2''" "''k3''" "1::int" 2 10 3] by simp

end
